theory Spec2Isabelle
  imports Complex_Main
begin

section \<open>Scores: Python floats with the two infinities\<close>

text \<open>
  \<^verbatim>\<open>negamax\<close> computes with the value returned by \<^verbatim>\<open>model.predict\<close>, with
  \<^verbatim>\<open>-float('inf')\<close> and with \<^verbatim>\<open>float('inf')\<close>. The only operations it applies to
  them are unary minus, \<^verbatim>\<open>max\<close> and the comparisons, which are exact on floats, so a
  score is a real number or one of the two infinities; the scoring function may return
  any of them. (NaN, on which the comparisons of floats are not an order, is not modelled.)
\<close>

datatype score = NegInf | Fin real | PosInf

fun score_le :: "score \<Rightarrow> score \<Rightarrow> bool" where
  "score_le NegInf _ = True"
| "score_le (Fin x) NegInf = False"
| "score_le (Fin x) (Fin y) = (x \<le> y)"
| "score_le (Fin x) PosInf = True"
| "score_le PosInf PosInf = True"
| "score_le PosInf _ = False"

fun score_neg :: "score \<Rightarrow> score" where
  "score_neg NegInf = PosInf"
| "score_neg (Fin x) = Fin (- x)"
| "score_neg PosInf = NegInf"

instantiation score :: "{uminus, linorder}"
begin

definition less_eq_score :: "score \<Rightarrow> score \<Rightarrow> bool" where
  "less_eq_score a b = score_le a b"

definition less_score :: "score \<Rightarrow> score \<Rightarrow> bool" where
  "less_score a b = (score_le a b \<and> \<not> score_le b a)"

definition uminus_score :: "score \<Rightarrow> score" where
  "uminus_score a = score_neg a"

instance
proof
  fix x y z :: score
  show "(x < y) = (x \<le> y \<and> \<not> y \<le> x)"
    by (simp add: less_score_def less_eq_score_def)
  show "x \<le> x"
    by (cases x) (simp_all add: less_eq_score_def)
  show "x \<le> y \<Longrightarrow> y \<le> z \<Longrightarrow> x \<le> z"
    by (cases x; cases y; cases z) (simp_all add: less_eq_score_def)
  show "x \<le> y \<Longrightarrow> y \<le> x \<Longrightarrow> x = y"
    by (cases x; cases y) (simp_all add: less_eq_score_def)
  show "x \<le> y \<or> y \<le> x"
    by (cases x; cases y) (auto simp: less_eq_score_def)
qed

end

section \<open>The rules engine and the scoring function\<close>

text \<open>
  The program plays through the \<^verbatim>\<open>chess\<close> package, which is not part of the repository.
  Colours are that package's booleans (\<^verbatim>\<open>chess.WHITE = True\<close>, \<^verbatim>\<open>chess.BLACK = False\<close>),
  squares are the numbers \<^verbatim>\<open>0..63\<close> (\<^verbatim>\<open>chess.SQUARES\<close>), a piece is a colour and a piece type.
  Everything the program asks of a \<^verbatim>\<open>chess.Board\<close> is a field of the record \<open>engine\<close>, over an
  arbitrary type \<open>'b\<close> of board states and \<open>'m\<close> of moves; \<open>push\<close> and \<open>pop\<close>, which mutate
  the board in Python, return the new board state.
\<close>

type_synonym color = bool

abbreviation WHITE :: color where "WHITE \<equiv> True"
abbreviation BLACK :: color where "BLACK \<equiv> False"

datatype piece_type = PAWN | KNIGHT | BISHOP | ROOK | QUEEN | KING

type_synonym piece = "color \<times> piece_type"

type_synonym square = nat

record ('b, 'm) engine =
  piece_at :: "'b \<Rightarrow> square \<Rightarrow> piece option"
  attackers :: "'b \<Rightarrow> color \<Rightarrow> square \<Rightarrow> square set"
  has_kingside_castling_rights :: "'b \<Rightarrow> color \<Rightarrow> bool"
  has_queenside_castling_rights :: "'b \<Rightarrow> color \<Rightarrow> bool"
  king :: "'b \<Rightarrow> color \<Rightarrow> square option"
  turn :: "'b \<Rightarrow> color"
  legal_moves :: "'b \<Rightarrow> 'm list"
  fullmove_number :: "'b \<Rightarrow> int"
  is_game_over :: "'b \<Rightarrow> bool"
  push :: "'b \<Rightarrow> 'm \<Rightarrow> 'b"
  pop :: "'b \<Rightarrow> 'b"

text \<open>
  An entry of the feature list is a Python integer, or \<^verbatim>\<open>None\<close> where \<^verbatim>\<open>board.king\<close>
  finds no king of that colour. The scoring function \<^verbatim>\<open>model.predict([features])[0]\<close> is a
  parameter \<open>predict\<close>.
\<close>

type_synonym feature = "int option"

type_synonym predict = "feature list \<Rightarrow> score"


section \<open>Feature extraction: \<^verbatim>\<open>extract_features\<close>\<close>

text \<open>
  The exceptions the modelled code could raise: \<^verbatim>\<open>KeyError\<close> from a dictionary read at a
  key that is not there, and \<^verbatim>\<open>RecursionError\<close> when the recursion of \<^verbatim>\<open>negamax\<close> exceeds
  the interpreter's stack.
\<close>

datatype py_error = KeyError | RecursionError

text \<open>
  \<^verbatim>\<open>PIECE_VALUES\<close> is a dictionary that the code reads with \<^verbatim>\<open>get\<close>, tests with \<^verbatim>\<open>in\<close> and
  iterates in insertion order: an association list. \<^verbatim>\<open>chess.D4, E4, D5, E5\<close> are the squares
  27, 28, 35, 36; \<^verbatim>\<open>chess.square_rank(sq)\<close> is \<^verbatim>\<open>sq >> 3\<close> and \<^verbatim>\<open>chess.square_file(sq)\<close> is
  \<^verbatim>\<open>sq & 7\<close>.
\<close>

definition PIECE_VALUES :: "(piece_type \<times> int) list" where
  "PIECE_VALUES = [(PAWN, 1), (KNIGHT, 3), (BISHOP, 3), (ROOK, 5), (QUEEN, 9)]"

definition CENTER_SQUARES :: "square list" where
  "CENTER_SQUARES = [27, 28, 35, 36]"

definition SQUARES :: "square list" where
  "SQUARES = [0..<64]"

definition square_rank :: "square \<Rightarrow> nat" where
  "square_rank sq = sq div 8"

definition square_file :: "square \<Rightarrow> nat" where
  "square_file sq = sq mod 8"

text \<open>
  The local variables of \<^verbatim>\<open>extract_features\<close> that the loop over the squares updates
  (lines 23 to 37). The dictionaries keyed by colour always hold both colours and are
  functions of the colour; \<^verbatim>\<open>piece_counts\<close> has the ten keys given at line 25 and is a map,
  read through \<open>lookup\<close>, which raises \<^verbatim>\<open>KeyError\<close> as Python does. \<^verbatim>\<open>attackers_cache\<close>
  (line 39) is built and never read, so it is left out.
\<close>

record acc =
  material_white :: int
  material_black :: int
  piece_counts :: "piece \<rightharpoonup> int"
  center_control_white :: int
  center_control_black :: int
  white_in_black_half :: int
  black_in_white_half :: int
  pawn_files :: "color \<Rightarrow> nat set"
  all_pawns :: "color \<Rightarrow> square list"
  open_files :: "nat set"
  halfopen_files :: "color \<Rightarrow> nat set"
  outpost_knights :: "color \<Rightarrow> int"
  developed_minors :: "color \<Rightarrow> int"
  defended_pieces :: "color \<Rightarrow> int"

definition lookup :: "('k \<rightharpoonup> 'v) \<Rightarrow> 'k \<Rightarrow> py_error + 'v" where
  "lookup d k = (case d k of None \<Rightarrow> Inl KeyError | Some v \<Rightarrow> Inr v)"

definition init_acc :: acc where
  "init_acc =
     \<lparr> material_white = 0,
       material_black = 0,
       piece_counts = map_of (concat (map (\<lambda>color. map (\<lambda>ptype. ((color, ptype), 0))
                                 (map fst PIECE_VALUES)) [WHITE, BLACK])),
       center_control_white = 0,
       center_control_black = 0,
       white_in_black_half = 0,
       black_in_white_half = 0,
       pawn_files = (\<lambda>color. {}),
       all_pawns = (\<lambda>color. []),
       open_files = set [0..<8],
       halfopen_files = (\<lambda>color. {}),
       outpost_knights = (\<lambda>color. 0),
       developed_minors = (\<lambda>color. 0),
       defended_pieces = (\<lambda>color. 0) \<rparr>"

text \<open>The blocks of the loop body, in the order of the source, one per comment there.\<close>

text \<open>Lines 52 to 56, \<^verbatim>\<open># Material\<close>.\<close>

definition add_material :: "color \<Rightarrow> piece_type \<Rightarrow> acc \<Rightarrow> acc" where
  "add_material color ptype a =
     (let v = (case map_of PIECE_VALUES ptype of None \<Rightarrow> 0 | Some x \<Rightarrow> x)
      in if color = WHITE then a\<lparr>material_white := material_white a + v\<rparr>
         else a\<lparr>material_black := material_black a + v\<rparr>)"

text \<open>Lines 59 and 60, \<^verbatim>\<open># Figurenzahl\<close>: the only step that reads a dictionary by a computed key.\<close>

definition add_piece_count :: "color \<Rightarrow> piece_type \<Rightarrow> acc \<Rightarrow> py_error + acc" where
  "add_piece_count color ptype a =
     (if ptype \<in> set (map fst PIECE_VALUES)
      then (case lookup (piece_counts a) (color, ptype) of
              Inl e \<Rightarrow> Inl e
            | Inr n \<Rightarrow> Inr (a\<lparr>piece_counts := (piece_counts a)((color, ptype) \<mapsto> n + 1)\<rparr>))
      else Inr a)"

text \<open>Lines 63 to 67, \<^verbatim>\<open># Zentrum\<close>.\<close>

definition add_center :: "color \<Rightarrow> square \<Rightarrow> acc \<Rightarrow> acc" where
  "add_center color sq a =
     (if sq \<in> set CENTER_SQUARES
      then (if color = WHITE then a\<lparr>center_control_white := center_control_white a + 1\<rparr>
            else a\<lparr>center_control_black := center_control_black a + 1\<rparr>)
      else a)"

text \<open>Lines 70 to 73, pieces in the opponent's half.\<close>

definition add_half :: "color \<Rightarrow> nat \<Rightarrow> acc \<Rightarrow> acc" where
  "add_half color rank a =
     (if color = WHITE \<and> rank \<ge> 4 then a\<lparr>white_in_black_half := white_in_black_half a + 1\<rparr>
      else if color = BLACK \<and> rank \<le> 3 then a\<lparr>black_in_white_half := black_in_white_half a + 1\<rparr>
      else a)"

text \<open>Lines 76 to 80, \<^verbatim>\<open># Bauernanalyse\<close>.\<close>

definition add_pawn :: "color \<Rightarrow> piece_type \<Rightarrow> square \<Rightarrow> nat \<Rightarrow> acc \<Rightarrow> acc" where
  "add_pawn color ptype sq file a =
     (if ptype = PAWN
      then a\<lparr>pawn_files := (pawn_files a)(color := insert file (pawn_files a color)),
             all_pawns := (all_pawns a)(color := all_pawns a color @ [sq]),
             open_files := open_files a - {file},
             halfopen_files := (halfopen_files a)(color := insert file (halfopen_files a color))\<rparr>
      else a)"

text \<open>
  Lines 83 to 88, knights on an outpost: no attacker of the square by the other colour is a
  pawn (the generator skips attacking squares on which \<^verbatim>\<open>piece_at\<close> finds nothing).
\<close>

definition add_outpost ::
  "('b, 'm) engine \<Rightarrow> 'b \<Rightarrow> color \<Rightarrow> piece_type \<Rightarrow> square \<Rightarrow> nat \<Rightarrow> acc \<Rightarrow> acc" where
  "add_outpost E board color ptype sq rank a =
     (if ptype = KNIGHT \<and> ((color = WHITE \<and> rank \<ge> 4) \<or> (color = BLACK \<and> rank \<le> 3))
      then (let opp_color = (\<not> color);
                attacking = attackers E board opp_color sq
            in if \<not> (\<exists>s \<in> attacking. case piece_at E board s of
                                          None \<Rightarrow> False
                                        | Some (c, t) \<Rightarrow> t = PAWN)
               then a\<lparr>outpost_knights := (outpost_knights a)(color := outpost_knights a color + 1)\<rparr>
               else a)
      else a)"

text \<open>Lines 91 to 93, minor pieces off the back rank.\<close>

definition add_developed :: "color \<Rightarrow> piece_type \<Rightarrow> nat \<Rightarrow> acc \<Rightarrow> acc" where
  "add_developed color ptype rank a =
     (if ptype \<in> set [BISHOP, KNIGHT] \<and> ((color = WHITE \<and> rank > 0) \<or> (color = BLACK \<and> rank < 7))
      then a\<lparr>developed_minors := (developed_minors a)(color := developed_minors a color + 1)\<rparr>
      else a)"

text \<open>Lines 96 and 97, defended pieces: \<^verbatim>\<open>len(board.attackers(color, square)) > 0\<close>.\<close>

definition add_defended :: "('b, 'm) engine \<Rightarrow> 'b \<Rightarrow> color \<Rightarrow> square \<Rightarrow> acc \<Rightarrow> acc" where
  "add_defended E board color sq a =
     (if attackers E board color sq \<noteq> {}
      then a\<lparr>defended_pieces := (defended_pieces a)(color := defended_pieces a color + 1)\<rparr>
      else a)"

text \<open>The body of the loop at line 42 for one square; an empty square is skipped (line 44).\<close>

definition square_step :: "('b, 'm) engine \<Rightarrow> 'b \<Rightarrow> square \<Rightarrow> acc \<Rightarrow> py_error + acc" where
  "square_step E board sq a =
     (case piece_at E board sq of
        None \<Rightarrow> Inr a
      | Some (color, ptype) \<Rightarrow>
          (let rank = square_rank sq;
               file = square_file sq
           in case add_piece_count color ptype (add_material color ptype a) of
                Inl e \<Rightarrow> Inl e
              | Inr a1 \<Rightarrow>
                  Inr (add_defended E board color sq
                        (add_developed color ptype rank
                          (add_outpost E board color ptype sq rank
                            (add_pawn color ptype sq file
                              (add_half color rank
                                (add_center color sq a1))))))))"

fun scan_squares :: "('b, 'm) engine \<Rightarrow> 'b \<Rightarrow> square list \<Rightarrow> acc \<Rightarrow> py_error + acc" where
  "scan_squares E board [] a = Inr a"
| "scan_squares E board (sq # sqs) a =
     (case square_step E board sq a of
        Inl e \<Rightarrow> Inl e
      | Inr a' \<Rightarrow> scan_squares E board sqs a')"

text \<open>Lines 105 to 107: the two counts of each piece type, in the order of \<^verbatim>\<open>PIECE_VALUES\<close>.\<close>

fun count_features :: "(piece \<rightharpoonup> int) \<Rightarrow> piece_type list \<Rightarrow> py_error + feature list" where
  "count_features pc [] = Inr []"
| "count_features pc (ptype # ptypes) =
     (case lookup pc (WHITE, ptype) of
        Inl e \<Rightarrow> Inl e
      | Inr w \<Rightarrow>
          (case lookup pc (BLACK, ptype) of
             Inl e \<Rightarrow> Inl e
           | Inr b \<Rightarrow>
               (case count_features pc ptypes of
                  Inl e \<Rightarrow> Inl e
                | Inr rest \<Rightarrow> Inr (Some w # Some b # rest))))"

text \<open>
  Lines 136 to 140 and 143 to 150: the sums over both colours and the files in
  \<^verbatim>\<open>pawn_files[color]\<close> of a boolean; the part of one colour is named, since the sum over
  \<^verbatim>\<open>for color in [chess.WHITE, chess.BLACK] for file in pawn_files[color]\<close> is the sum of
  the two parts.
\<close>

definition doubled_pawns :: "acc \<Rightarrow> color \<Rightarrow> int" where
  "doubled_pawns a color =
     (\<Sum>file \<in> pawn_files a color.
        of_bool (length (filter (\<lambda>sq. square_file sq = file) (all_pawns a color)) > 1))"

definition isolated_pawns :: "acc \<Rightarrow> color \<Rightarrow> int" where
  "isolated_pawns a color =
     (\<Sum>file \<in> pawn_files a color.
        of_bool (\<forall>offset \<in> set [- 1, 1]. int file + offset \<notin> int ` pawn_files a color))"

text \<open>
  Lines 100 to 169: the list that the \<^verbatim>\<open>append\<close> calls build from the loop's variables,
  \<open>counts\<close> being the ten entries of lines 105 to 107.
\<close>

definition feature_list :: "('b, 'm) engine \<Rightarrow> 'b \<Rightarrow> acc \<Rightarrow> feature list \<Rightarrow> feature list" where
  "feature_list E board a counts =
     [Some (material_white a), Some (material_black a),
      Some (material_white a - material_black a)]
     @ counts
     @ [Some (of_bool (has_kingside_castling_rights E board WHITE)),
        Some (of_bool (has_queenside_castling_rights E board WHITE)),
        Some (of_bool (has_kingside_castling_rights E board BLACK)),
        Some (of_bool (has_queenside_castling_rights E board BLACK)),
        map_option int (king E board WHITE),
        map_option int (king E board BLACK),
        Some (of_bool (turn E board)),
        Some (center_control_white a),
        Some (center_control_black a),
        Some (white_in_black_half a),
        Some (black_in_white_half a),
        Some (int (length (legal_moves E board))),
        Some (fullmove_number E board),
        Some (sum_list (map (doubled_pawns a) [WHITE, BLACK])),
        Some (sum_list (map (isolated_pawns a) [WHITE, BLACK])),
        Some (int (card (halfopen_files a WHITE))),
        Some (int (card (halfopen_files a BLACK))),
        Some (int (card (open_files a))),
        Some (outpost_knights a WHITE),
        Some (outpost_knights a BLACK),
        Some (developed_minors a WHITE),
        Some (developed_minors a BLACK),
        Some (defended_pieces a WHITE),
        Some (defended_pieces a BLACK)]"

definition extract_features :: "('b, 'm) engine \<Rightarrow> 'b \<Rightarrow> py_error + feature list" where
  "extract_features E board =
     (case scan_squares E board SQUARES init_acc of
        Inl e \<Rightarrow> Inl e
      | Inr a \<Rightarrow>
          (case count_features (piece_counts a) (map fst PIECE_VALUES) of
             Inl e \<Rightarrow> Inl e
           | Inr counts \<Rightarrow> Inr (feature_list E board a counts)))"

section \<open>The search: \<^verbatim>\<open>negamax\<close>\<close>

text \<open>
  \<^verbatim>\<open>negamax(board, alpha, beta, model, depth)\<close>, lines 174 to 199. \<^verbatim>\<open>depth\<close> is a Python
  integer and the recursion stops at \<^verbatim>\<open>depth == 0\<close> or at the end of the game only, so it
  need not stop; the first argument of the model is the number of stack frames still
  available, and a call that finds none left raises \<^verbatim>\<open>RecursionError\<close>. The board is
  mutated by \<^verbatim>\<open>push\<close> and \<^verbatim>\<open>pop\<close>: the model passes the board state along and returns the
  state the caller is left with as the third component of the result.

  \<open>negamax_loop\<close> is the \<^verbatim>\<open>for\<close> loop of lines 185 to 197 on the moves not yet visited, with
  the loop's variables \<^verbatim>\<open>max_eval\<close>, \<^verbatim>\<open>best_move\<close> and \<^verbatim>\<open>alpha\<close>. The moves are those of
  \<^verbatim>\<open>board.legal_moves\<close> at the start of the loop.
\<close>

type_synonym ('b, 'm) result = "score \<times> 'm option \<times> 'b"

fun negamax ::
    "nat \<Rightarrow> ('b, 'm) engine \<Rightarrow> predict \<Rightarrow> 'b \<Rightarrow> score \<Rightarrow> score \<Rightarrow> int \<Rightarrow> py_error + ('b, 'm) result"
  and negamax_loop ::
    "nat \<Rightarrow> ('b, 'm) engine \<Rightarrow> predict \<Rightarrow> 'b \<Rightarrow> 'm list \<Rightarrow> score \<Rightarrow> 'm option \<Rightarrow> score \<Rightarrow> score \<Rightarrow> int
       \<Rightarrow> py_error + ('b, 'm) result"
where
  "negamax 0 E model board alpha beta depth = Inl RecursionError"
| "negamax (Suc n) E model board alpha beta depth =
     (if depth = 0 \<or> is_game_over E board
      then (case extract_features E board of
              Inl e \<Rightarrow> Inl e
            | Inr features \<Rightarrow>
                (let eval = model features;
                     score = (if turn E board = WHITE then eval else - eval)
                 in Inr (score, None, board)))
      else negamax_loop n E model board (legal_moves E board) NegInf None alpha beta depth)"
| "negamax_loop n E model board [] max_eval best_move alpha beta depth =
     Inr (max_eval, best_move, board)"
| "negamax_loop n E model board (move # moves) max_eval best_move alpha beta depth =
     (case negamax n E model (push E board move) (- beta) (- alpha) (depth - 1) of
        Inl e \<Rightarrow> Inl e
      | Inr (child_eval, child_move, board1) \<Rightarrow>
          (let eval = - child_eval;
               board2 = pop E board1;
               max_eval' = (if eval > max_eval then eval else max_eval);
               best_move' = (if eval > max_eval then Some move else best_move);
               alpha' = max alpha eval
           in if alpha' \<ge> beta
              then Inr (max_eval', best_move', board2)
              else negamax_loop n E model board2 moves max_eval' best_move' alpha' beta depth))"


text \<open>
  The trace of a call, for the statements about what the search visits. \<open>windows\<close> lists
  the pairs \<^verbatim>\<open>(alpha, beta)\<close> with which \<^verbatim>\<open>negamax\<close> is entered, the call itself first and
  then every call below it in the order of execution; \<open>examined\<close> lists, for the loop of
  one call, the moves whose iteration is completed, each with its value
  (\<^verbatim>\<open>eval\<close> after line 188) and with \<^verbatim>\<open>alpha\<close> after line 195. Both follow the control flow
  of \<open>negamax\<close> and \<open>negamax_loop\<close> and take the values from them.
\<close>

fun windows ::
    "nat \<Rightarrow> ('b, 'm) engine \<Rightarrow> predict \<Rightarrow> 'b \<Rightarrow> score \<Rightarrow> score \<Rightarrow> int \<Rightarrow> (score \<times> score) list"
  and loop_windows ::
    "nat \<Rightarrow> ('b, 'm) engine \<Rightarrow> predict \<Rightarrow> 'b \<Rightarrow> 'm list \<Rightarrow> score \<Rightarrow> score \<Rightarrow> int
       \<Rightarrow> (score \<times> score) list"
where
  "windows 0 E model board alpha beta depth = []"
| "windows (Suc n) E model board alpha beta depth =
     (alpha, beta) #
     (if depth = 0 \<or> is_game_over E board then []
      else loop_windows n E model board (legal_moves E board) alpha beta depth)"
| "loop_windows n E model board [] alpha beta depth = []"
| "loop_windows n E model board (move # moves) alpha beta depth =
     windows n E model (push E board move) (- beta) (- alpha) (depth - 1) @
     (case negamax n E model (push E board move) (- beta) (- alpha) (depth - 1) of
        Inl e \<Rightarrow> []
      | Inr (child_eval, child_move, board1) \<Rightarrow>
          (let alpha' = max alpha (- child_eval)
           in if alpha' \<ge> beta then []
              else loop_windows n E model (pop E board1) moves alpha' beta depth))"

fun examined ::
    "nat \<Rightarrow> ('b, 'm) engine \<Rightarrow> predict \<Rightarrow> 'b \<Rightarrow> 'm list \<Rightarrow> score \<Rightarrow> score \<Rightarrow> int
       \<Rightarrow> ('m \<times> score \<times> score) list"
where
  "examined n E model board [] alpha beta depth = []"
| "examined n E model board (move # moves) alpha beta depth =
     (case negamax n E model (push E board move) (- beta) (- alpha) (depth - 1) of
        Inl e \<Rightarrow> []
      | Inr (child_eval, child_move, board1) \<Rightarrow>
          (let alpha' = max alpha (- child_eval)
           in (move, - child_eval, alpha') #
              (if alpha' \<ge> beta then []
               else examined n E model (pop E board1) moves alpha' beta depth)))"

text \<open>
  Lines 191 to 193 as one step on the pair of \<^verbatim>\<open>max_eval\<close> and \<^verbatim>\<open>best_move\<close>, for an entry of
  \<open>examined\<close>: the move replaces the best one only when its value is greater.
\<close>

definition better_move :: "score \<times> 'm option \<Rightarrow> 'm \<times> score \<times> score \<Rightarrow> score \<times> 'm option" where
  "better_move best x = (if fst best < fst (snd x) then (fst (snd x), Some (fst x)) else best)"

text \<open>
  The definition of \<open>negamax\<close> and \<open>negamax_loop\<close> generates the relation
  \<open>negamax_negamax_loop_rel\<close> of the recursive calls that their equations make, each under
  the conditions of the branch in which it stands: a call of \<open>negamax\<close> that is not a leaf
  calls the loop on the legal moves, the loop on \<open>move # moves\<close> calls \<open>negamax\<close> on the
  child position with the window \<open>(- beta, - alpha)\<close>, and, when that call returns and
  \<^verbatim>\<open>alpha >= beta\<close> does not hold after the update, it goes on with the loop on \<open>moves\<close>. A
  call is \<open>Inl\<close> of the arguments of \<open>negamax\<close> or \<open>Inr\<close> of those of \<open>negamax_loop\<close>;
  \<open>call_window\<close> is its pair of \<^verbatim>\<open>alpha\<close> and \<^verbatim>\<open>beta\<close>.
\<close>

definition call_window ::
  "(nat \<times> ('b, 'm) engine \<times> predict \<times> 'b \<times> score \<times> score \<times> int) +
   (nat \<times> ('b, 'm) engine \<times> predict \<times> 'b \<times> 'm list \<times> score \<times> 'm option
      \<times> score \<times> score \<times> int)
   \<Rightarrow> score \<times> score" where
  "call_window c =
     (case c of
        Inl (n, E, model, board, alpha, beta, depth) \<Rightarrow> (alpha, beta)
      | Inr (n, E, model, board, moves, max_eval, best_move, alpha, beta, depth) \<Rightarrow> (alpha, beta))"

section \<open>The reference search without pruning\<close>

text \<open>
  The specification compares \<^verbatim>\<open>negamax\<close> with "a reference full (unpruned) minimax of the
  same depth and move order". This is that reference, written from the specification's
  algorithm with the window and the cutoff left out: the depth is a natural number, a
  child position is \<open>push\<close> of the position and the move, a leaf has the sign-adjusted
  evaluation and no move, and a move replaces the best one only when its value is greater.
\<close>

fun minimax ::
    "('b, 'm) engine \<Rightarrow> predict \<Rightarrow> nat \<Rightarrow> 'b \<Rightarrow> py_error + (score \<times> 'm option)"
  and minimax_loop ::
    "('b, 'm) engine \<Rightarrow> predict \<Rightarrow> nat \<Rightarrow> 'b \<Rightarrow> 'm list \<Rightarrow> score \<Rightarrow> 'm option
       \<Rightarrow> py_error + (score \<times> 'm option)"
where
  "minimax E model 0 board =
     (case extract_features E board of
        Inl e \<Rightarrow> Inl e
      | Inr features \<Rightarrow>
          Inr (if turn E board = WHITE then model features else - model features, None))"
| "minimax E model (Suc d) board =
     (if is_game_over E board
      then (case extract_features E board of
              Inl e \<Rightarrow> Inl e
            | Inr features \<Rightarrow>
                Inr (if turn E board = WHITE then model features else - model features, None))
      else minimax_loop E model d board (legal_moves E board) NegInf None)"
| "minimax_loop E model d board [] best_score best_move = Inr (best_score, best_move)"
| "minimax_loop E model d board (move # moves) best_score best_move =
     (case minimax E model d (push E board move) of
        Inl e \<Rightarrow> Inl e
      | Inr (child_score, child_move) \<Rightarrow>
          (if - child_score > best_score
           then minimax_loop E model d board moves (- child_score) (Some move)
           else minimax_loop E model d board moves best_score best_move))"

section \<open>What the program assumes of the rules engine and of the scoring function\<close>

text \<open>
  \<open>undo_ok\<close>: \<^verbatim>\<open>pop\<close> after \<^verbatim>\<open>push\<close> restores the board. \<open>consistent\<close>: a position that is not
  over has a legal move.
\<close>

definition undo_ok :: "('b, 'm) engine \<Rightarrow> bool" where
  "undo_ok E \<longleftrightarrow> (\<forall>board move. pop E (push E board move) = board)"



text \<open>
  The mirror of a position: every piece changes colour and moves to the square of the same
  file on the opposite rank (\<^verbatim>\<open>chess.square_mirror\<close>, \<^verbatim>\<open>sq ^ 0x38\<close>).
\<close>

definition square_mirror :: "square \<Rightarrow> square" where
  "square_mirror sq = 8 * (7 - sq div 8) + sq mod 8"

definition mirror_of :: "('b, 'm) engine \<Rightarrow> 'b \<Rightarrow> 'b \<Rightarrow> bool" where
  "mirror_of E board board' \<longleftrightarrow>
     (\<forall>sq < 64. piece_at E board' (square_mirror sq) =
                  map_option (\<lambda>(color, ptype). (\<not> color, ptype)) (piece_at E board sq))"

text \<open>The squares on which a colour has a pawn on a file.\<close>

definition pawns_on :: "('b, 'm) engine \<Rightarrow> 'b \<Rightarrow> color \<Rightarrow> nat \<Rightarrow> square list" where
  "pawns_on E board color file =
     filter (\<lambda>sq. piece_at E board sq = Some (color, PAWN) \<and> square_file sq = file) SQUARES"


text \<open>The material value that the piece on a square adds to a colour's total.\<close>

definition material_of :: "('b, 'm) engine \<Rightarrow> 'b \<Rightarrow> color \<Rightarrow> square \<Rightarrow> int" where
  "material_of E board color sq =
     (case piece_at E board sq of
        None \<Rightarrow> 0
      | Some (c, t) \<Rightarrow>
          if c = color then (case map_of PIECE_VALUES t of None \<Rightarrow> 0 | Some v \<Rightarrow> v) else 0)"

text \<open>Every key of \<^verbatim>\<open>piece_counts\<close> that the code uses is present.\<close>

definition keys_ok :: "acc \<Rightarrow> bool" where
  "keys_ok a \<longleftrightarrow> (\<forall>k. snd k \<in> set (map fst PIECE_VALUES) \<longrightarrow> piece_counts a k \<noteq> None)"

text \<open>The feature list of a position, once it is known that the extraction cannot fail.\<close>

definition features_of :: "('b, 'm) engine \<Rightarrow> 'b \<Rightarrow> feature list" where
  "features_of E board = projr (extract_features E board)"

text \<open>
  The score that the reference search gives a position, and the value of a leaf.
\<close>

definition minimax_value :: "('b, 'm) engine \<Rightarrow> predict \<Rightarrow> nat \<Rightarrow> 'b \<Rightarrow> score" where
  "minimax_value E model d board = fst (projr (minimax E model d board))"

definition leaf_value :: "('b, 'm) engine \<Rightarrow> predict \<Rightarrow> 'b \<Rightarrow> score" where
  "leaf_value E model board =
     (if turn E board = WHITE then model (features_of E board) else - model (features_of E board))"

section \<open>A small game for concrete runs\<close>

text \<open>
  A rules engine on which the definitions can be run: a board state is the list of the
  moves played, the last one first; a game lasts two plies and each position has the moves
  0 and 1; \<open>pop\<close> drops the last move. Seen with White to move the squares hold two white
  pawns on the a-file, a white knight, a black pawn and the kings; with Black to move they
  hold the mirrored placement. The move counter is used to tell the final positions apart.
\<close>

definition toy_pieces :: "square \<Rightarrow> piece option" where
  "toy_pieces sq =
     (if sq = 4 then Some (WHITE, KING)
      else if sq = 60 then Some (BLACK, KING)
      else if sq = 8 \<or> sq = 16 then Some (WHITE, PAWN)
      else if sq = 1 then Some (WHITE, KNIGHT)
      else if sq = 49 then Some (BLACK, PAWN)
      else None)"

definition toy_pieces_mirrored :: "square \<Rightarrow> piece option" where
  "toy_pieces_mirrored sq =
     (if sq = 60 then Some (BLACK, KING)
      else if sq = 4 then Some (WHITE, KING)
      else if sq = 48 \<or> sq = 40 then Some (BLACK, PAWN)
      else if sq = 57 then Some (BLACK, KNIGHT)
      else if sq = 9 then Some (WHITE, PAWN)
      else None)"

fun toy_counter :: "nat list \<Rightarrow> int" where
  "toy_counter [0, 0] = 3"
| "toy_counter [Suc 0, 0] = 5"
| "toy_counter [0, Suc 0] = 2"
| "toy_counter [Suc 0, Suc 0] = 9"
| "toy_counter board = 1"

definition toy :: "(nat list, nat) engine" where
  "toy =
     \<lparr> piece_at = (\<lambda>board. if even (length board) then toy_pieces else toy_pieces_mirrored),
       attackers = (\<lambda>board color sq. {}),
       has_kingside_castling_rights = (\<lambda>board color. False),
       has_queenside_castling_rights = (\<lambda>board color. False),
       king = (\<lambda>board color. Some (if color = WHITE then 4 else 60)),
       turn = (\<lambda>board. even (length board)),
       legal_moves = (\<lambda>board. if length board < 2 then [0, 1] else []),
       fullmove_number = toy_counter,
       is_game_over = (\<lambda>board. 2 \<le> length board),
       push = (\<lambda>board move. move # board),
       pop = tl \<rparr>"

text \<open>
  The same game with an engine that breaks its contract: the game is over only after
  three plies, and the positions after two plies have no legal move.
\<close>

definition toy_open :: "(nat list, nat) engine" where
  "toy_open = toy\<lparr>is_game_over := (\<lambda>board. 3 \<le> length board)\<rparr>"

text \<open>A scoring function for the small game: the entry of the move counter, as a score.\<close>

definition toy_model :: predict where
  "toy_model features = (case features ! 25 of None \<Rightarrow> Fin 0 | Some k \<Rightarrow> Fin (real_of_int k))"


section \<open>Properties of the scores\<close>

lemma score_le_simps [simp]:
  "NegInf \<le> a" "a \<le> PosInf"
  "Fin x \<le> Fin y \<longleftrightarrow> x \<le> y"
  "\<not> Fin x \<le> NegInf" "\<not> PosInf \<le> Fin x" "\<not> PosInf \<le> NegInf"
  by (cases a; simp add: less_eq_score_def)+

lemma score_less_simps [simp]:
  "\<not> a < NegInf" "\<not> PosInf < a"
  "Fin x < Fin y \<longleftrightarrow> x < y"
  "NegInf < Fin x" "Fin x < PosInf" "NegInf < PosInf"
  by (cases a; auto simp add: less_score_def)+

lemma score_neg_simps [simp]:
  "- NegInf = PosInf" "- Fin x = Fin (- x)" "- PosInf = NegInf"
  by (simp_all add: uminus_score_def)

lemma score_neg_neg [simp]: "- (- a) = (a::score)"
  by (cases a) simp_all

lemma score_neg_le_iff [simp]: "- a \<le> - b \<longleftrightarrow> b \<le> (a::score)"
  by (cases a; cases b) simp_all

lemma score_neg_less_iff [simp]: "- a < - b \<longleftrightarrow> b < (a::score)"
  by (cases a; cases b) simp_all

lemma score_less_NegInf_iff: "NegInf < a \<longleftrightarrow> a \<noteq> NegInf"
  by (cases a) simp_all

lemma score_less_PosInf_iff: "a < PosInf \<longleftrightarrow> a \<noteq> PosInf"
  by (cases a) simp_all


section \<open>Properties of the feature extraction\<close>

lemma keys_ok_init: "keys_ok init_acc"
  by (auto simp: keys_ok_def init_acc_def PIECE_VALUES_def)

lemma keys_okD:
  assumes "keys_ok a" and "ptype \<in> set (map fst PIECE_VALUES)"
  shows "\<exists>n. piece_counts a (color, ptype) = Some n"
proof -
  from assms(1) have "snd (color, ptype) \<in> set (map fst PIECE_VALUES)
      \<longrightarrow> piece_counts a (color, ptype) \<noteq> None"
    unfolding keys_ok_def by (rule spec)
  with assms(2) show ?thesis by simp
qed

lemma add_piece_count_Inr:
  assumes "keys_ok a"
  shows "\<exists>a'. add_piece_count color ptype a = Inr a' \<and> keys_ok a'"
proof (cases "ptype \<in> set (map fst PIECE_VALUES)")
  case True
  from keys_okD[OF assms True] obtain n where n: "piece_counts a (color, ptype) = Some n" ..
  have "keys_ok (a\<lparr>piece_counts := (piece_counts a)((color, ptype) \<mapsto> n + 1)\<rparr>)"
    using assms unfolding keys_ok_def by simp
  with True n show ?thesis by (simp add: add_piece_count_def lookup_def)
next
  case False
  with assms show ?thesis by (simp add: add_piece_count_def)
qed

lemma keys_ok_add_material [simp]: "keys_ok (add_material color ptype a) = keys_ok a"
  by (simp add: add_material_def keys_ok_def Let_def)

lemma keys_ok_rest [simp]:
  "keys_ok (add_center color sq a) = keys_ok a"
  "keys_ok (add_half color rank a) = keys_ok a"
  "keys_ok (add_pawn color ptype sq file a) = keys_ok a"
  "keys_ok (add_outpost E board color ptype sq rank a) = keys_ok a"
  "keys_ok (add_developed color ptype rank a) = keys_ok a"
  "keys_ok (add_defended E board color sq a) = keys_ok a"
  by (simp_all add: add_center_def add_half_def add_pawn_def add_outpost_def add_developed_def
      add_defended_def keys_ok_def Let_def)

lemma square_step_Inr:
  assumes k: "keys_ok a"
  shows "\<exists>a'. square_step E board sq a = Inr a' \<and> keys_ok a'"
proof (cases "piece_at E board sq")
  case None
  with k show ?thesis by (simp add: square_step_def)
next
  case (Some pc)
  obtain color ptype where pc: "pc = (color, ptype)" by (cases pc)
  from k have "keys_ok (add_material color ptype a)" by simp
  from add_piece_count_Inr[OF this] obtain a1 where
    "add_piece_count color ptype (add_material color ptype a) = Inr a1" "keys_ok a1" by blast
  then show ?thesis using Some pc by (simp add: square_step_def Let_def)
qed

lemma scan_squares_Inr:
  "keys_ok a \<Longrightarrow> \<exists>a'. scan_squares E board sqs a = Inr a' \<and> keys_ok a'"
proof (induction sqs arbitrary: a)
  case Nil
  then show ?case by simp
next
  case (Cons sq sqs)
  from square_step_Inr[OF Cons.prems, of E board sq] obtain a1 where
    s: "square_step E board sq a = Inr a1" and k: "keys_ok a1" by blast
  from Cons.IH[OF k] show ?case using s by simp
qed

lemma count_features_Inr:
  "\<forall>k. snd k \<in> set ptypes \<longrightarrow> pc k \<noteq> None \<Longrightarrow>
   \<exists>cs. count_features pc ptypes = Inr cs \<and> length cs = 2 * length ptypes \<and> None \<notin> set cs"
proof (induction ptypes)
  case Nil
  then show ?case by simp
next
  case (Cons ptype ptypes)
  from Cons.prems have "snd (WHITE, ptype) \<in> set (ptype # ptypes) \<longrightarrow> pc (WHITE, ptype) \<noteq> None"
    by (rule spec)
  then obtain w where w: "pc (WHITE, ptype) = Some w" by auto
  from Cons.prems have "snd (BLACK, ptype) \<in> set (ptype # ptypes) \<longrightarrow> pc (BLACK, ptype) \<noteq> None"
    by (rule spec)
  then obtain b where b: "pc (BLACK, ptype) = Some b" by auto
  from Cons.prems have "\<forall>k. snd k \<in> set ptypes \<longrightarrow> pc k \<noteq> None" by simp
  from Cons.IH[OF this] obtain cs where
    "count_features pc ptypes = Inr cs" "length cs = 2 * length ptypes" "None \<notin> set cs" by blast
  with w b show ?case by (simp add: lookup_def)
qed

lemma extract_features_shape:
  "\<exists>a counts. scan_squares E board SQUARES init_acc = Inr a \<and>
     count_features (piece_counts a) (map fst PIECE_VALUES) = Inr counts \<and>
     length counts = 10 \<and> None \<notin> set counts \<and>
     extract_features E board = Inr (feature_list E board a counts)"
proof -
  from scan_squares_Inr[OF keys_ok_init, of E board SQUARES] obtain a where
    a: "scan_squares E board SQUARES init_acc = Inr a" and k: "keys_ok a" by blast
  from k have "\<forall>k. snd k \<in> set (map fst PIECE_VALUES) \<longrightarrow> piece_counts a k \<noteq> None"
    by (simp add: keys_ok_def)
  from count_features_Inr[OF this] obtain cs where
    cs: "count_features (piece_counts a) (map fst PIECE_VALUES) = Inr cs"
        "length cs = 2 * length (map fst PIECE_VALUES)" "None \<notin> set cs" by blast
  from cs(2) have "length cs = 10" by (simp add: PIECE_VALUES_def)
  with a cs show ?thesis by (simp add: extract_features_def)
qed



lemma feature_list_nth:
  assumes "length counts = 10"
  shows "feature_list E board a counts ! 0 = Some (material_white a)"
    and "feature_list E board a counts ! 1 = Some (material_black a)"
    and "feature_list E board a counts ! 2 = Some (material_white a - material_black a)"
    and "feature_list E board a counts ! 17 = map_option int (king E board WHITE)"
    and "feature_list E board a counts ! 18 = map_option int (king E board BLACK)"
    and "feature_list E board a counts ! 19 = Some (of_bool (turn E board))"
    and "feature_list E board a counts ! 24 = Some (int (length (legal_moves E board)))"
    and "feature_list E board a counts ! 25 = Some (fullmove_number E board)"
    and "feature_list E board a counts ! 26 = Some (doubled_pawns a WHITE + doubled_pawns a BLACK)"
  using assms by (simp_all add: feature_list_def nth_append)

lemma extract_features_eq: "extract_features E board = Inr (features_of E board)"
  using extract_features_shape[of E board] by (auto simp: features_of_def)

lemma features_of_counter: "features_of E board ! 25 = Some (fullmove_number E board)"
  using extract_features_shape[of E board] feature_list_nth(8)
  by (auto simp: features_of_def)



subsection \<open>The small game's pieces\<close>

lemma toy_piece_at [simp]:
  "piece_at toy [] = toy_pieces" "piece_at toy [m] = toy_pieces_mirrored"
  by (simp_all add: toy_def)

lemma all_squares: "(\<forall>sq<64. P sq) \<longleftrightarrow> list_all P SQUARES"
  by (auto simp: SQUARES_def list_all_iff)

lemma toy_mirror: "mirror_of toy [] [0]"
  unfolding mirror_of_def all_squares toy_piece_at
  by code_simp

lemma toy_white_pawn_squares:
  "filter (\<lambda>sq. toy_pieces sq = Some (WHITE, PAWN)) SQUARES = [8, 16]"
  by code_simp

lemma toy_black_pawn_squares:
  "filter (\<lambda>sq. toy_pieces sq = Some (BLACK, PAWN)) SQUARES = [49]"
  by code_simp

lemma pawns_on_filter:
  "pawns_on E board color g =
     filter (\<lambda>sq. square_file sq = g) (filter (\<lambda>sq. piece_at E board sq = Some (color, PAWN)) SQUARES)"
  by (simp add: pawns_on_def conj_commute)

lemma toy_pawns_white: "pawns_on toy [] WHITE g = (if g = 0 then [8, 16] else [])"
  unfolding pawns_on_filter toy_piece_at toy_white_pawn_squares
  by (simp add: square_file_def)

lemma toy_pawns_black: "pawns_on toy [] BLACK g = (if g = 1 then [49] else [])"
  unfolding pawns_on_filter toy_piece_at toy_black_pawn_squares
  by (simp add: square_file_def)

subsection \<open>Material\<close>

lemma material_rest [simp]:
  "material_white (add_center color sq a) = material_white a"
  "material_white (add_half color rank a) = material_white a"
  "material_white (add_pawn color ptype sq file a) = material_white a"
  "material_white (add_outpost E board color ptype sq rank a) = material_white a"
  "material_white (add_developed color ptype rank a) = material_white a"
  "material_white (add_defended E board color sq a) = material_white a"
  "material_black (add_center color sq a) = material_black a"
  "material_black (add_half color rank a) = material_black a"
  "material_black (add_pawn color ptype sq file a) = material_black a"
  "material_black (add_outpost E board color ptype sq rank a) = material_black a"
  "material_black (add_developed color ptype rank a) = material_black a"
  "material_black (add_defended E board color sq a) = material_black a"
  by (simp_all add: add_center_def add_half_def add_pawn_def add_outpost_def add_developed_def
      add_defended_def Let_def)

lemma add_piece_count_material:
  "add_piece_count color ptype a = Inr a' \<Longrightarrow>
   material_white a' = material_white a \<and> material_black a' = material_black a"
  by (auto simp: add_piece_count_def split: if_splits sum.splits)

lemma square_step_material:
  assumes "square_step E board sq a = Inr a'"
  shows "material_white a' = material_white a + material_of E board WHITE sq"
    and "material_black a' = material_black a + material_of E board BLACK sq"
  using assms
  by (auto simp: square_step_def material_of_def Let_def add_material_def
      split: option.splits sum.splits dest!: add_piece_count_material)

lemma scan_squares_material:
  "scan_squares E board sqs a = Inr a' \<Longrightarrow>
   material_white a' = material_white a + (\<Sum>sq\<leftarrow>sqs. material_of E board WHITE sq) \<and>
   material_black a' = material_black a + (\<Sum>sq\<leftarrow>sqs. material_of E board BLACK sq)"
proof (induction sqs arbitrary: a)
  case Nil
  then show ?case by simp
next
  case (Cons sq sqs)
  from Cons.prems obtain a1 where s: "square_step E board sq a = Inr a1"
    and r: "scan_squares E board sqs a1 = Inr a'"
    by (auto split: sum.splits)
  from Cons.IH[OF r] square_step_material[OF s] show ?case by simp
qed

lemma square_mirror_lt: "sq < 64 \<Longrightarrow> square_mirror sq < 64"
proof -
  assume "sq < 64"
  then have "sq div 8 \<le> 7" by simp
  have "sq mod 8 < 8" by simp
  have "8 * (7 - sq div 8) \<le> 56" by simp
  with \<open>sq mod 8 < 8\<close> show ?thesis unfolding square_mirror_def by linarith
qed

lemma square_mirror_invol: "sq < 64 \<Longrightarrow> square_mirror (square_mirror sq) = sq"
proof -
  assume lt: "sq < 64"
  then have d: "sq div 8 \<le> 7" by simp
  have m: "sq mod 8 < 8" by simp
  have "(8 * (7 - sq div 8) + sq mod 8) div 8 = 7 - sq div 8"
    using m by simp
  moreover have "(8 * (7 - sq div 8) + sq mod 8) mod 8 = sq mod 8"
    by simp
  ultimately have "square_mirror (square_mirror sq) = 8 * (7 - (7 - sq div 8)) + sq mod 8"
    by (simp add: square_mirror_def)
  also have "\<dots> = 8 * (sq div 8) + sq mod 8" using d by simp
  also have "\<dots> = sq" by simp
  finally show ?thesis .
qed

lemma sum_squares_mirror:
  fixes f :: "nat \<Rightarrow> int"
  shows "(\<Sum>sq\<leftarrow>SQUARES. f (square_mirror sq)) = (\<Sum>sq\<leftarrow>SQUARES. f sq)"
proof -
  have "(\<Sum>sq\<leftarrow>SQUARES. f (square_mirror sq)) = (\<Sum>sq \<in> {0..<64}. f (square_mirror sq))"
    by (simp add: SQUARES_def interv_sum_list_conv_sum_set_nat)
  also have "\<dots> = (\<Sum>sq \<in> {0..<64}. f sq)"
    by (rule sum.reindex_bij_witness[of _ square_mirror square_mirror])
       (simp_all add: square_mirror_lt square_mirror_invol)
  also have "\<dots> = (\<Sum>sq\<leftarrow>SQUARES. f sq)"
    by (simp add: SQUARES_def interv_sum_list_conv_sum_set_nat)
  finally show ?thesis .
qed

lemma mirror_material:
  assumes "mirror_of E board board'" and "sq < 64"
  shows "material_of E board' color (square_mirror sq) = material_of E board (\<not> color) sq"
proof -
  from assms have "piece_at E board' (square_mirror sq) =
      map_option (\<lambda>(color, ptype). (\<not> color, ptype)) (piece_at E board sq)"
    by (simp add: mirror_of_def)
  then show ?thesis
    by (auto simp: material_of_def split: option.splits)
qed

lemma mirror_material_sum:
  assumes "mirror_of E board board'"
  shows "(\<Sum>sq\<leftarrow>SQUARES. material_of E board' color sq) =
         (\<Sum>sq\<leftarrow>SQUARES. material_of E board (\<not> color) sq)"
proof -
  have "(\<Sum>sq\<leftarrow>SQUARES. material_of E board' color sq) =
        (\<Sum>sq\<leftarrow>SQUARES. material_of E board' color (square_mirror sq))"
    by (rule sum_squares_mirror[symmetric])
  also have "\<dots> = (\<Sum>sq\<leftarrow>SQUARES. material_of E board (\<not> color) sq)"
    by (rule arg_cong[where f = sum_list], rule map_cong[OF refl])
       (simp add: SQUARES_def mirror_material[OF assms])
  finally show ?thesis .
qed


text \<open>
  Claim C9. When \<open>board'\<close> is the mirror of \<open>board\<close> (every piece with the other colour on the
  vertically flipped square), the material of White and of Black are exchanged and the
  third feature, White's material minus Black's, is negated.
\<close>

theorem material_symmetry:
  assumes "mirror_of E board board'"
  shows "\<exists>fs fs' w b. extract_features E board = Inr fs \<and> extract_features E board' = Inr fs' \<and>
           fs ! 0 = Some w \<and> fs ! 1 = Some b \<and> fs ! 2 = Some (w - b) \<and>
           fs' ! 0 = Some b \<and> fs' ! 1 = Some w \<and> fs' ! 2 = Some (- (w - b))"
proof -
  from extract_features_shape[of E board] obtain a cs where
    sc: "scan_squares E board SQUARES init_acc = Inr a" and len: "length cs = 10" and
    ef: "extract_features E board = Inr (feature_list E board a cs)" by blast
  from extract_features_shape[of E board'] obtain a' cs' where
    sc': "scan_squares E board' SQUARES init_acc = Inr a'" and len': "length cs' = 10" and
    ef': "extract_features E board' = Inr (feature_list E board' a' cs')" by blast
  have w': "material_white a' = material_black a"
    using scan_squares_material[OF sc] scan_squares_material[OF sc']
      mirror_material_sum[OF assms, of WHITE] by (simp add: init_acc_def)
  have b': "material_black a' = material_white a"
    using scan_squares_material[OF sc] scan_squares_material[OF sc']
      mirror_material_sum[OF assms, of BLACK] by (simp add: init_acc_def)
  show ?thesis
    unfolding ef ef'
    using feature_list_nth(1,2,3)[OF len, of E board a]
      feature_list_nth(1,2,3)[OF len', of E board' a'] w' b'
    by simp
qed

theorem material_symmetry_witness:
  "mirror_of toy [] [0] \<and>
   (\<exists>fs fs' w b. extract_features toy [] = Inr fs \<and> extract_features toy [0] = Inr fs' \<and>
           fs ! 0 = Some w \<and> fs ! 1 = Some b \<and> fs ! 2 = Some (w - b) \<and>
           fs' ! 0 = Some b \<and> fs' ! 1 = Some w \<and> fs' ! 2 = Some (- (w - b)))"
  using material_symmetry[OF toy_mirror] toy_mirror by simp


subsection \<open>Doubled pawns\<close>

lemma pawns_rest [simp]:
  "all_pawns (add_center color sq a) = all_pawns a"
  "all_pawns (add_half color rank a) = all_pawns a"
  "all_pawns (add_material color ptype a) = all_pawns a"
  "all_pawns (add_outpost E board color ptype sq rank a) = all_pawns a"
  "all_pawns (add_developed color ptype rank a) = all_pawns a"
  "all_pawns (add_defended E board color sq a) = all_pawns a"
  "pawn_files (add_center color sq a) = pawn_files a"
  "pawn_files (add_half color rank a) = pawn_files a"
  "pawn_files (add_material color ptype a) = pawn_files a"
  "pawn_files (add_outpost E board color ptype sq rank a) = pawn_files a"
  "pawn_files (add_developed color ptype rank a) = pawn_files a"
  "pawn_files (add_defended E board color sq a) = pawn_files a"
  by (simp_all add: add_center_def add_half_def add_material_def add_outpost_def add_developed_def
      add_defended_def Let_def)

lemma add_piece_count_pawns:
  "add_piece_count color ptype a = Inr a' \<Longrightarrow>
   all_pawns a' = all_pawns a \<and> pawn_files a' = pawn_files a"
  by (auto simp: add_piece_count_def split: if_splits sum.splits)

lemma square_step_pawns:
  assumes "square_step E board sq a = Inr a'"
  shows "all_pawns a' c = all_pawns a c @ filter (\<lambda>s. piece_at E board s = Some (c, PAWN)) [sq]"
    and "pawn_files a' c =
           pawn_files a c \<union> square_file ` set (filter (\<lambda>s. piece_at E board s = Some (c, PAWN)) [sq])"
proof -
  show "all_pawns a' c = all_pawns a c @ filter (\<lambda>s. piece_at E board s = Some (c, PAWN)) [sq]"
  proof (cases "piece_at E board sq")
    case None
    with assms show ?thesis by (simp add: square_step_def)
  next
    case (Some pc)
    obtain color ptype where pc: "pc = (color, ptype)" by (cases pc)
    from assms Some pc obtain a1 where
      a1: "add_piece_count color ptype (add_material color ptype a) = Inr a1" and
      a': "a' = add_defended E board color sq (add_developed color ptype (square_rank sq)
             (add_outpost E board color ptype sq (square_rank sq)
               (add_pawn color ptype sq (square_file sq)
                 (add_half color (square_rank sq) (add_center color sq a1)))))"
      by (auto simp: square_step_def Let_def split: sum.splits)
    from add_piece_count_pawns[OF a1] have "all_pawns a1 = all_pawns a" by simp
    then show ?thesis using Some pc a' by (auto simp: add_pawn_def)
  qed
  show "pawn_files a' c =
      pawn_files a c \<union> square_file ` set (filter (\<lambda>s. piece_at E board s = Some (c, PAWN)) [sq])"
  proof (cases "piece_at E board sq")
    case None
    with assms show ?thesis by (simp add: square_step_def)
  next
    case (Some pc)
    obtain color ptype where pc: "pc = (color, ptype)" by (cases pc)
    from assms Some pc obtain a1 where
      a1: "add_piece_count color ptype (add_material color ptype a) = Inr a1" and
      a': "a' = add_defended E board color sq (add_developed color ptype (square_rank sq)
             (add_outpost E board color ptype sq (square_rank sq)
               (add_pawn color ptype sq (square_file sq)
                 (add_half color (square_rank sq) (add_center color sq a1)))))"
      by (auto simp: square_step_def Let_def split: sum.splits)
    from add_piece_count_pawns[OF a1] have "pawn_files a1 = pawn_files a" by simp
    then show ?thesis using Some pc a' by (auto simp: add_pawn_def)
  qed
qed

lemma scan_squares_pawns:
  "scan_squares E board sqs a = Inr a' \<Longrightarrow>
   all_pawns a' c = all_pawns a c @ filter (\<lambda>s. piece_at E board s = Some (c, PAWN)) sqs \<and>
   pawn_files a' c =
     pawn_files a c \<union> square_file ` set (filter (\<lambda>s. piece_at E board s = Some (c, PAWN)) sqs)"
proof (induction sqs arbitrary: a)
  case Nil
  then show ?case by simp
next
  case (Cons sq sqs)
  from Cons.prems obtain a1 where s: "square_step E board sq a = Inr a1"
    and r: "scan_squares E board sqs a1 = Inr a'"
    by (auto split: sum.splits)
  from Cons.IH[OF r] square_step_pawns[OF s, of c] show ?case by auto
qed

lemma doubled_pawns_scan:
  assumes "scan_squares E board SQUARES init_acc = Inr a"
  shows "doubled_pawns a c =
     (\<Sum>file \<in> square_file ` set (filter (\<lambda>s. piece_at E board s = Some (c, PAWN)) SQUARES).
        of_bool (length (pawns_on E board c file) > 1))"
proof -
  from scan_squares_pawns[OF assms, of c] have
    ap: "all_pawns a c = filter (\<lambda>s. piece_at E board s = Some (c, PAWN)) SQUARES" and
    pf: "pawn_files a c = square_file ` set (filter (\<lambda>s. piece_at E board s = Some (c, PAWN)) SQUARES)"
    by (simp_all add: init_acc_def)
  have "filter (\<lambda>sq. square_file sq = g) (all_pawns a c) = pawns_on E board c g" for g
    unfolding ap pawns_on_def by simp
  then show ?thesis unfolding doubled_pawns_def pf by simp
qed

lemma file_in_pawn_files:
  "file \<in> square_file ` set (filter (\<lambda>s. piece_at E board s = Some (c, PAWN)) SQUARES)
   \<longleftrightarrow> pawns_on E board c file \<noteq> []"
  by (auto simp: pawns_on_def filter_empty_conv)

lemma pawn_file_lt: 
  "file \<in> square_file ` set (filter (\<lambda>s. piece_at E board s = Some (c, PAWN)) SQUARES) \<Longrightarrow> file < 8"
  by (auto simp: square_file_def)

lemma doubled_pawns_one:
  assumes sc: "scan_squares E board SQUARES init_acc = Inr a"
    and "length (pawns_on E board c file) > 1"
    and others: "\<forall>g<8. g \<noteq> file \<longrightarrow> length (pawns_on E board c g) \<le> 1"
  shows "doubled_pawns a c = 1"
proof -
  let ?F = "square_file ` set (filter (\<lambda>s. piece_at E board s = Some (c, PAWN)) SQUARES)"
  have fin: "finite ?F" by simp
  from assms(2) have "pawns_on E board c file \<noteq> []" by auto
  then have mem: "file \<in> ?F" unfolding file_in_pawn_files .
  have "doubled_pawns a c = (\<Sum>g \<in> ?F. of_bool (length (pawns_on E board c g) > 1))"
    by (rule doubled_pawns_scan[OF sc])
  also have "\<dots> = (\<Sum>g \<in> ?F. if g = file then 1 else 0)"
  proof (rule sum.cong[OF refl])
    fix g assume "g \<in> ?F"
    then have "g < 8" by (rule pawn_file_lt)
    with others assms(2) show "(of_bool (length (pawns_on E board c g) > 1) :: int) = (if g = file then 1 else 0)"
      by auto
  qed
  also have "\<dots> = 1" using fin mem by simp
  finally show ?thesis .
qed

lemma doubled_pawns_zero:
  assumes sc: "scan_squares E board SQUARES init_acc = Inr a"
    and none: "\<forall>g<8. length (pawns_on E board c g) \<le> 1"
  shows "doubled_pawns a c = 0"
proof -
  let ?F = "square_file ` set (filter (\<lambda>s. piece_at E board s = Some (c, PAWN)) SQUARES)"
  have "doubled_pawns a c = (\<Sum>g \<in> ?F. of_bool (length (pawns_on E board c g) > 1))"
    by (rule doubled_pawns_scan[OF sc])
  also have "\<dots> = (\<Sum>g \<in> ?F. 0)"
  proof (rule sum.cong[OF refl])
    fix g assume "g \<in> ?F"
    then have "g < 8" by (rule pawn_file_lt)
    with none show "(of_bool (length (pawns_on E board c g) > 1) :: int) = 0"
      by auto
  qed
  also have "\<dots> = 0" by simp
  finally show ?thesis .
qed


text \<open>
  Claim C8. When one colour has more than one pawn on exactly one file and no other file
  holds more than one pawn of either colour, that colour's part of the doubled-pawn sum
  is 1, the other colour's part is 0, and the doubled-pawn feature (entry 26, the sum of
  the two parts) is 1.
\<close>

theorem doubled_pawn_feature:
  assumes "file < 8"
    and "length (pawns_on E board color file) > 1"
    and "\<forall>g<8. g \<noteq> file \<longrightarrow> length (pawns_on E board color g) \<le> 1"
    and "\<forall>g<8. length (pawns_on E board (\<not> color) g) \<le> 1"
  shows "\<exists>a fs. scan_squares E board SQUARES init_acc = Inr a \<and>
           doubled_pawns a color = 1 \<and> doubled_pawns a (\<not> color) = 0 \<and>
           extract_features E board = Inr fs \<and> fs ! 26 = Some 1"
proof -
  from extract_features_shape[of E board] obtain a cs where
    sc: "scan_squares E board SQUARES init_acc = Inr a" and len: "length cs = 10" and
    ef: "extract_features E board = Inr (feature_list E board a cs)" by blast
  have one: "doubled_pawns a color = 1"
    by (rule doubled_pawns_one[OF sc assms(2,3)])
  have zero: "doubled_pawns a (\<not> color) = 0"
    by (rule doubled_pawns_zero[OF sc assms(4)])
  have "doubled_pawns a WHITE + doubled_pawns a BLACK = 1"
    using one zero by (cases color) simp_all
  with feature_list_nth(9)[OF len, of E board a]
  have "feature_list E board a cs ! 26 = Some 1" by simp
  with sc one zero ef show ?thesis by blast
qed

theorem doubled_pawn_feature_witness:
  "pawns_on toy [] WHITE 0 = [8, 16] \<and>
   list_all (\<lambda>g. length (pawns_on toy [] WHITE g) \<le> 1) [1, 2, 3, 4, 5, 6, 7] \<and>
   list_all (\<lambda>g. length (pawns_on toy [] BLACK g) \<le> 1) [0, 1, 2, 3, 4, 5, 6, 7] \<and>
   (\<exists>a fs. scan_squares toy [] SQUARES init_acc = Inr a \<and>
           doubled_pawns a WHITE = 1 \<and> doubled_pawns a BLACK = 0 \<and>
           extract_features toy [] = Inr fs \<and> fs ! 26 = Some 1)"
proof -
  have h1: "(0::nat) < 8" by simp
  have h2: "length (pawns_on toy [] WHITE 0) > 1" by (simp add: toy_pawns_white)
  have h3: "\<forall>g<8. g \<noteq> 0 \<longrightarrow> length (pawns_on toy [] WHITE g) \<le> 1"
    by (simp add: toy_pawns_white)
  have h4: "\<forall>g<8. length (pawns_on toy [] (\<not> WHITE) g) \<le> 1"
    by (simp add: toy_pawns_black)
  from doubled_pawn_feature[OF h1 h2 h3 h4] show ?thesis
    by (simp add: toy_pawns_white toy_pawns_black)
qed


section \<open>Properties of the search\<close>

subsection \<open>Leaves, the board, and returning\<close>

lemma negamax_leaf:
  "depth = 0 \<or> is_game_over E board \<Longrightarrow>
   negamax (Suc n) E model board alpha beta depth =
     Inr (if turn E board = WHITE then model (features_of E board)
          else - model (features_of E board), None, board)"
  by (simp add: extract_features_eq Let_def)

lemma negamax_node:
  "depth \<noteq> 0 \<Longrightarrow> \<not> is_game_over E board \<Longrightarrow>
   negamax (Suc n) E model board alpha beta depth =
     negamax_loop n E model board (legal_moves E board) NegInf None alpha beta depth"
  by simp

lemma negamax_loop_board:
  assumes undo: "undo_ok E"
    and child: "\<And>board a b v mv board'.
        negamax n E model board a b (depth - 1) = Inr (v, mv, board') \<Longrightarrow> board' = board"
  shows "negamax_loop n E model board moves max_eval best_move alpha beta depth = Inr (v, mv, board')
         \<Longrightarrow> board' = board"
proof (induction moves arbitrary: max_eval best_move alpha)
  case Nil
  then show ?case by simp
next
  case (Cons move moves)
  from Cons.prems obtain ce cm b1 where
    c: "negamax n E model (push E board move) (- beta) (- alpha) (depth - 1) = Inr (ce, cm, b1)"
    by (auto split: sum.splits)
  from child[OF c] have b1: "b1 = push E board move" .
  with undo have p: "pop E b1 = board" by (simp add: undo_ok_def)
  show ?case
  proof (cases "beta \<le> max alpha (- ce)")
    case True
    with Cons.prems c p show ?thesis by (simp add: Let_def)
  next
    case False
    with Cons.prems c p have
      "negamax_loop n E model board moves (if max_eval < - ce then - ce else max_eval)
         (if max_eval < - ce then Some move else best_move) (max alpha (- ce)) beta depth
       = Inr (v, mv, board')"
      by (simp add: Let_def)
    then show ?thesis by (rule Cons.IH)
  qed
qed

lemma negamax_board:
  assumes undo: "undo_ok E"
  shows "negamax n E model board alpha beta depth = Inr (v, mv, board') \<Longrightarrow> board' = board"
proof (induction n arbitrary: board alpha beta depth v mv board')
  case 0
  then show ?case by simp
next
  case (Suc n)
  show ?case
  proof (cases "depth = 0 \<or> is_game_over E board")
    case True
    from Suc.prems negamax_leaf[OF True, of n model alpha beta] show ?thesis by simp
  next
    case False
    with Suc.prems have L:
      "negamax_loop n E model board (legal_moves E board) NegInf None alpha beta depth
       = Inr (v, mv, board')" by simp
    show ?thesis
      by (rule negamax_loop_board[OF undo _ L]) (rule Suc.IH)
  qed
qed

lemma negamax_loop_returns:
  assumes child: "\<And>board a b. \<exists>r. negamax n E model board a b (depth - 1) = Inr r"
  shows "\<exists>r. negamax_loop n E model board moves max_eval best_move alpha beta depth = Inr r"
proof (induction moves arbitrary: board max_eval best_move alpha)
  case Nil
  show ?case by simp
next
  case (Cons move moves)
  from child[of "push E board move" "- beta" "- alpha"] obtain ce cm b1 where
    c: "negamax n E model (push E board move) (- beta) (- alpha) (depth - 1) = Inr (ce, cm, b1)"
    by (metis prod_cases3)
  show ?case
  proof (cases "beta \<le> max alpha (- ce)")
    case True
    with c show ?thesis by (simp add: Let_def)
  next
    case False
    with c Cons.IH[of "pop E b1" "if max_eval < - ce then - ce else max_eval"
        "if max_eval < - ce then Some move else best_move" "max alpha (- ce)"]
    show ?thesis by (simp add: Let_def)
  qed
qed

lemma negamax_returns:
  "0 \<le> depth \<Longrightarrow> nat depth < n \<Longrightarrow> \<exists>r. negamax n E model board alpha beta depth = Inr r"
proof (induction n arbitrary: board alpha beta depth)
  case 0
  then show ?case by simp
next
  case (Suc n)
  show ?case
  proof (cases "depth = 0 \<or> is_game_over E board")
    case True
    from negamax_leaf[OF True] show ?thesis by blast
  next
    case False
    then have d: "0 \<le> depth - 1" "nat (depth - 1) < n" using Suc.prems by auto
    have "\<exists>r. negamax_loop n E model board (legal_moves E board) NegInf None alpha beta depth = Inr r"
      by (rule negamax_loop_returns) (rule Suc.IH[OF d])
    with False show ?thesis by simp
  qed
qed

subsection \<open>Runs of the small game\<close>

lemma toy_fields [simp]:
  "legal_moves toy board = (if length board < 2 then [0, 1] else [])"
  "is_game_over toy board = (2 \<le> length board)"
  "push toy board move = move # board"
  "pop toy board = tl board"
  "turn toy board = even (length board)"
  "fullmove_number toy board = toy_counter board"
  by (simp_all add: toy_def)

lemma toy_undo_ok: "undo_ok toy"
  by (simp add: undo_ok_def)


lemma toy_model_features [simp]:
  "toy_model (features_of E board) = Fin (real_of_int (fullmove_number E board))"
  by (simp add: toy_model_def features_of_counter)

lemma toy_leaves:
  "negamax (Suc n) toy toy_model [0, 0] a b 0 = Inr (Fin 3, None, [0, 0])"
  "negamax (Suc n) toy toy_model [Suc 0, 0] a b 0 = Inr (Fin 5, None, [Suc 0, 0])"
  "negamax (Suc n) toy toy_model [0, Suc 0] a b 0 = Inr (Fin 2, None, [0, Suc 0])"
  "negamax (Suc n) toy toy_model [Suc 0, Suc 0] a b 0 = Inr (Fin 9, None, [Suc 0, Suc 0])"
  by (simp_all add: extract_features_eq Let_def)

lemma toy_run: "negamax (Suc (Suc (Suc 0))) toy toy_model [] NegInf PosInf 2 = Inr (Fin 3, Some 0, [])"
  by (simp add: extract_features_eq Let_def)



text \<open>
  Claim C2. At depth 0 or on a position where the game is over, \<^verbatim>\<open>negamax\<close> returns the
  value of the scoring function on the extracted features, negated exactly when Black is
  to move, with no move and the board as it was. One stack frame is enough for it, and the
  call itself is the only entry of \<^verbatim>\<open>negamax\<close>: no move is tried.
\<close>

theorem negamax_leaf_result:
  assumes "depth = 0 \<or> is_game_over E board"
  shows "\<exists>fs. extract_features E board = Inr fs \<and>
          negamax (Suc n) E model board alpha beta depth =
            Inr (if turn E board = WHITE then model fs else - model fs, None, board) \<and>
          windows (Suc n) E model board alpha beta depth = [(alpha, beta)]"
proof -
  have "extract_features E board = Inr (features_of E board)"
    by (rule extract_features_eq)
  moreover have "negamax (Suc n) E model board alpha beta depth =
      Inr (if turn E board = WHITE then model (features_of E board)
           else - model (features_of E board), None, board)"
    by (rule negamax_leaf[OF assms])
  moreover have "windows (Suc n) E model board alpha beta depth = [(alpha, beta)]"
    using assms by auto
  ultimately show ?thesis by blast
qed

theorem negamax_leaf_result_witness:
  "is_game_over toy [0, 0] \<and>
   negamax (Suc 0) toy toy_model [0, 0] (Fin 1) (Fin 4) 7 = Inr (Fin 3, None, [0, 0]) \<and>
   windows (Suc 0) toy toy_model [0, 0] (Fin 1) (Fin 4) 7 = [(Fin 1, Fin 4)]"
proof -
  have h: "(7::int) = 0 \<or> is_game_over toy [0, 0]" by simp
  from negamax_leaf_result[OF h, of 0 toy_model "Fin 1" "Fin 4"]
  show ?thesis by (simp add: extract_features_eq)
qed


text \<open>
  Claim C5. With an engine whose \<^verbatim>\<open>pop\<close> undoes \<^verbatim>\<open>push\<close>, a call of \<^verbatim>\<open>negamax\<close> that returns
  leaves the board as it was passed in, for every window and every depth; and for a depth
  that is not negative and a stack that is deep enough the call does return.
\<close>

theorem negamax_restores_board:
  assumes "undo_ok E"
  shows "(negamax n E model board alpha beta depth = Inr (v, mv, board') \<longrightarrow> board' = board) \<and>
         (0 \<le> depth \<and> nat depth < n \<longrightarrow>
            (\<exists>v mv. negamax n E model board alpha beta depth = Inr (v, mv, board)))"
proof (intro conjI impI)
  assume "negamax n E model board alpha beta depth = Inr (v, mv, board')"
  then show "board' = board" by (rule negamax_board[OF assms])
next
  assume "0 \<le> depth \<and> nat depth < n"
  then obtain r where r: "negamax n E model board alpha beta depth = Inr r"
    using negamax_returns[of depth n E model board alpha beta] by blast
  obtain v mv b where "r = (v, mv, b)" by (cases r)
  with r negamax_board[OF assms, of n model board alpha beta depth v mv b]
  show "\<exists>v mv. negamax n E model board alpha beta depth = Inr (v, mv, board)" by auto
qed

theorem negamax_restores_board_witness:
  "undo_ok toy \<and>
   negamax (Suc (Suc (Suc 0))) toy toy_model [] NegInf PosInf 2 = Inr (Fin 3, Some 0, [])"
proof -
  from negamax_restores_board[OF toy_undo_ok, of "Suc (Suc (Suc 0))" toy_model "[]" NegInf PosInf 2
      "Fin 3" "Some 0" "[]"]
  have "\<exists>v mv. negamax (Suc (Suc (Suc 0))) toy toy_model [] NegInf PosInf 2 = Inr (v, mv, [])"
    by simp
  then show ?thesis using toy_undo_ok toy_run by simp
qed


text \<open>
  Claim C7 says that a call with a negative depth or with \<^verbatim>\<open>alpha > beta\<close> fails with a
  precondition violation. The code has no such check: in the small game a call with
  \<^verbatim>\<open>alpha = 1 > beta = 0\<close> returns its evaluation, a call with depth \<^verbatim>\<open>-1\<close> on a finished
  game returns its evaluation, and a call with depth \<^verbatim>\<open>-1\<close> at the start searches the whole
  game and returns a move.
\<close>

theorem negamax_accepts_invalid_parameters:
  "negamax (Suc 0) toy toy_model [] (Fin 1) (Fin 0) 0 = Inr (Fin 1, None, []) \<and>
   negamax (Suc 0) toy toy_model [0, 0] NegInf PosInf (- 1) = Inr (Fin 3, None, [0, 0]) \<and>
   negamax (Suc (Suc (Suc 0))) toy toy_model [] NegInf PosInf (- 1) = Inr (Fin 3, Some 0, [])"
  by (simp add: extract_features_eq Let_def)


text \<open>
  Claim C7 as amended. \<^verbatim>\<open>negamax\<close> does not validate its parameters. For every window,
  \<^verbatim>\<open>alpha > beta\<close> included, a call with a depth that is not negative returns normally
  when the stack is deep enough; with a negative depth it returns the leaf evaluation on a
  position where the game is over, and otherwise runs the loop over the legal moves as
  for any other depth.
\<close>

theorem negamax_unchecked:
  "(0 \<le> depth \<and> nat depth < n \<longrightarrow> (\<exists>r. negamax n E model board alpha beta depth = Inr r)) \<and>
   (depth < 0 \<and> is_game_over E board \<longrightarrow>
      negamax (Suc n) E model board alpha beta depth =
        Inr (if turn E board = WHITE then model (features_of E board)
             else - model (features_of E board), None, board)) \<and>
   (depth < 0 \<and> \<not> is_game_over E board \<longrightarrow>
      negamax (Suc n) E model board alpha beta depth =
        negamax_loop n E model board (legal_moves E board) NegInf None alpha beta depth)"
proof (intro conjI impI)
  assume "0 \<le> depth \<and> nat depth < n"
  then have "0 \<le> depth" and "nat depth < n" by simp_all
  then show "\<exists>r. negamax n E model board alpha beta depth = Inr r"
    by (rule negamax_returns)
next
  assume "depth < 0 \<and> is_game_over E board"
  then show "negamax (Suc n) E model board alpha beta depth =
        Inr (if turn E board = WHITE then model (features_of E board)
             else - model (features_of E board), None, board)"
    by (intro negamax_leaf) simp
next
  assume "depth < 0 \<and> \<not> is_game_over E board"
  then show "negamax (Suc n) E model board alpha beta depth =
        negamax_loop n E model board (legal_moves E board) NegInf None alpha beta depth"
    by simp
qed

theorem negamax_unchecked_witness:
  "(\<exists>r. negamax (Suc 0) toy toy_model [] (Fin 1) (Fin 0) 0 = Inr r) \<and>
   negamax (Suc 0) toy toy_model [0, 0] (Fin 1) (Fin 0) (- 1) = Inr (Fin 3, None, [0, 0]) \<and>
   negamax (Suc 0) toy toy_model [] (Fin 1) (Fin 0) (- 1) =
     negamax_loop 0 toy toy_model [] [0, 1] NegInf None (Fin 1) (Fin 0) (- 1)"
  using negamax_unchecked[of 0 "Suc 0" toy toy_model "[]" "Fin 1" "Fin 0"]
    negamax_unchecked[of "- 1" 0 toy toy_model "[0, 0]" "Fin 1" "Fin 0"]
    negamax_unchecked[of "- 1" 0 toy toy_model "[]" "Fin 1" "Fin 0"]
  by simp

subsection \<open>The move that is returned\<close>



lemma toy_open_fields [simp]:
  "legal_moves toy_open board = (if length board < 2 then [0, 1] else [])"
  "is_game_over toy_open board = (3 \<le> length board)"
  "push toy_open board move = move # board"
  "pop toy_open board = tl board"
  "turn toy_open board = even (length board)"
  "fullmove_number toy_open board = toy_counter board"
  by (simp_all add: toy_open_def toy_def)













subsection \<open>Windows and cutoffs\<close>

lemma loop_windows_ordered:
  assumes child: "\<And>board a b. a \<le> b \<Longrightarrow>
      \<forall>(x, y) \<in> set (windows n E model board a b (depth - 1)). x \<le> y"
  shows "alpha \<le> beta \<Longrightarrow>
         \<forall>(x, y) \<in> set (loop_windows n E model board moves alpha beta depth). x \<le> y"
proof (induction moves arbitrary: board alpha)
  case Nil
  show ?case by simp
next
  case (Cons move moves)
  from Cons.prems have "- beta \<le> - alpha" by simp
  from child[OF this] have
    w: "\<forall>(x, y) \<in> set (windows n E model (push E board move) (- beta) (- alpha) (depth - 1)). x \<le> y" .
  show ?case
  proof (cases "negamax n E model (push E board move) (- beta) (- alpha) (depth - 1)")
    case (Inl e)
    with w show ?thesis by simp
  next
    case (Inr r)
    obtain ce cm b1 where r: "r = (ce, cm, b1)" by (cases r)
    show ?thesis
    proof (cases "beta \<le> max alpha (- ce)")
      case True
      with Inr r w show ?thesis by (simp add: Let_def)
    next
      case False
      then have "max alpha (- ce) < beta" by (simp only: not_le)
      then have "max alpha (- ce) \<le> beta" by (rule less_imp_le)
      from Cons.IH[OF this] have
        "\<forall>(x, y) \<in> set (loop_windows n E model (pop E b1) moves (max alpha (- ce)) beta depth). x \<le> y" .
      with False Inr r w show ?thesis by (auto simp: Let_def)
    qed
  qed
qed

lemma windows_ordered:
  "alpha \<le> beta \<Longrightarrow> \<forall>(x, y) \<in> set (windows n E model board alpha beta depth). x \<le> y"
proof (induction n arbitrary: board alpha beta depth)
  case 0
  show ?case by simp
next
  case (Suc n)
  have "\<forall>(x, y) \<in> set (loop_windows n E model board (legal_moves E board) alpha beta depth). x \<le> y"
    by (rule loop_windows_ordered[OF _ Suc.prems]) (rule Suc.IH)
  with Suc.prems show ?case by simp
qed

lemma examined_prefix:
  "negamax_loop n E model board moves max_eval best_move alpha beta depth = Inr r \<Longrightarrow>
   map fst (examined n E model board moves alpha beta depth)
     = take (length (examined n E model board moves alpha beta depth)) moves \<and>
   (\<forall>i < length (examined n E model board moves alpha beta depth).
      Suc i < length moves \<longrightarrow>
        (beta \<le> snd (snd (examined n E model board moves alpha beta depth ! i))
         \<longleftrightarrow> Suc i = length (examined n E model board moves alpha beta depth)))"
proof (induction moves arbitrary: board max_eval best_move alpha)
  case Nil
  show ?case by simp
next
  case (Cons move moves)
  from Cons.prems obtain ce cm b1 where
    c: "negamax n E model (push E board move) (- beta) (- alpha) (depth - 1) = Inr (ce, cm, b1)"
    by (auto split: sum.splits)
  show ?case
  proof (cases "beta \<le> max alpha (- ce)")
    case True
    with c have
      "examined n E model board (move # moves) alpha beta depth = [(move, - ce, max alpha (- ce))]"
      by (simp add: Let_def)
    with True show ?thesis by simp
  next
    case False
    let ?rest = "examined n E model (pop E b1) moves (max alpha (- ce)) beta depth"
    from False c have ex:
      "examined n E model board (move # moves) alpha beta depth
       = (move, - ce, max alpha (- ce)) # ?rest"
      by (simp add: Let_def)
    from False Cons.prems c have L:
      "negamax_loop n E model (pop E b1) moves (if max_eval < - ce then - ce else max_eval)
         (if max_eval < - ce then Some move else best_move) (max alpha (- ce)) beta depth = Inr r"
      by (simp add: Let_def)
    from Cons.IH[OF L] have
      ih1: "map fst ?rest = take (length ?rest) moves" and
      ih2: "\<forall>i < length ?rest. Suc i < length moves \<longrightarrow>
              (beta \<le> snd (snd (?rest ! i)) \<longleftrightarrow> Suc i = length ?rest)"
      by blast+
    have nonempty: "moves \<noteq> [] \<Longrightarrow> ?rest \<noteq> []"
    proof -
      assume "moves \<noteq> []"
      then obtain m ms where ms: "moves = m # ms" by (cases moves) auto
      from L obtain ce' cm' b1' where
        "negamax n E model (push E (pop E b1) m) (- beta) (- max alpha (- ce)) (depth - 1)
           = Inr (ce', cm', b1')"
        unfolding ms by (auto split: sum.splits)
      then show "?rest \<noteq> []" unfolding ms by (simp add: Let_def)
    qed
    show ?thesis
      unfolding ex
    proof (intro conjI allI impI)
      show "map fst ((move, - ce, max alpha (- ce)) # ?rest)
            = take (length ((move, - ce, max alpha (- ce)) # ?rest)) (move # moves)"
        using ih1 by simp
    next
      fix i
      assume i: "i < length ((move, - ce, max alpha (- ce)) # ?rest)"
        and s: "Suc i < length (move # moves)"
      show "(beta \<le> snd (snd (((move, - ce, max alpha (- ce)) # ?rest) ! i)))
            = (Suc i = length ((move, - ce, max alpha (- ce)) # ?rest))"
      proof (cases i)
        case 0
        from s 0 have "moves \<noteq> []" by auto
        from nonempty[OF this] False 0 show ?thesis by simp
      next
        case (Suc j)
        with i s ih2 show ?thesis by simp
      qed
    qed
  qed
qed

lemma examined_alpha:
  "\<forall>i < length (examined n E model board moves alpha beta depth).
     snd (snd (examined n E model board moves alpha beta depth ! i))
       = max (if i = 0 then alpha
              else snd (snd (examined n E model board moves alpha beta depth ! (i - 1))))
             (fst (snd (examined n E model board moves alpha beta depth ! i)))"
proof (induction moves arbitrary: board alpha)
  case Nil
  show ?case by simp
next
  case (Cons move moves)
  show ?case
  proof (cases "negamax n E model (push E board move) (- beta) (- alpha) (depth - 1)")
    case (Inl e)
    then show ?thesis by simp
  next
    case (Inr r)
    obtain ce cm b1 where r: "r = (ce, cm, b1)" by (cases r)
    show ?thesis
    proof (cases "beta \<le> max alpha (- ce)")
      case True
      with Inr r have
        "examined n E model board (move # moves) alpha beta depth = [(move, - ce, max alpha (- ce))]"
        by (simp add: Let_def)
      then show ?thesis by simp
    next
      case False
      let ?rest = "examined n E model (pop E b1) moves (max alpha (- ce)) beta depth"
      from False Inr r have ex:
        "examined n E model board (move # moves) alpha beta depth
         = (move, - ce, max alpha (- ce)) # ?rest"
        by (simp add: Let_def)
      have ih: "\<forall>i < length ?rest.
          snd (snd (?rest ! i))
            = max (if i = 0 then max alpha (- ce) else snd (snd (?rest ! (i - 1))))
                  (fst (snd (?rest ! i)))"
        by (rule Cons.IH)
      show ?thesis
        unfolding ex
      proof (intro allI impI)
        fix i
        assume i: "i < length ((move, - ce, max alpha (- ce)) # ?rest)"
        show "snd (snd (((move, - ce, max alpha (- ce)) # ?rest) ! i))
            = max (if i = 0 then alpha
                   else snd (snd (((move, - ce, max alpha (- ce)) # ?rest) ! (i - 1))))
                  (fst (snd (((move, - ce, max alpha (- ce)) # ?rest) ! i)))"
        proof (cases i)
          case 0
          then show ?thesis by simp
        next
          case (Suc j)
          with i have j: "j < length ?rest" by simp
          from ih j have
            "snd (snd (?rest ! j))
              = max (if j = 0 then max alpha (- ce) else snd (snd (?rest ! (j - 1))))
                    (fst (snd (?rest ! j)))" by blast
          then show ?thesis unfolding Suc by (cases j) simp_all
        qed
      qed
    qed
  qed
qed



lemma call_step_ordered:
  assumes "negamax_negamax_loop_rel callee caller"
    and "fst (call_window caller) \<le> snd (call_window caller)"
  shows "fst (call_window callee) \<le> snd (call_window callee)"
  using assms
proof (cases rule: negamax_negamax_loop_rel.cases)
  case (1 n E model board alpha beta depth)
  with assms(2) show ?thesis by (simp add: call_window_def)
next
  case (2 n E model board move moves max_eval best_move alpha beta depth)
  with assms(2) show ?thesis by (simp add: call_window_def)
next
  case (3 n E model board move moves max_eval best_move alpha beta depth b x y xa ya xaa xb xc xd xe)
  from 3(11) have "xe \<le> beta" by simp
  with 3(1) show ?thesis by (simp add: call_window_def)
qed

lemma calls_ordered:
  assumes "rtranclp negamax_negamax_loop_rel c c0"
    and "fst (call_window c0) \<le> snd (call_window c0)"
  shows "fst (call_window c) \<le> snd (call_window c)"
  using assms
  by (induction rule: converse_rtranclp_induct) (auto intro: call_step_ordered)

lemma negamax_loop_step:
  assumes "negamax n E model (push E board move) (- beta) (- alpha) (depth - 1) = Inr (ce, cm, b1)"
  shows "negamax_loop n E model board (move # moves) max_eval best_move alpha beta depth =
           (if beta \<le> max alpha (- ce)
            then Inr (if max_eval < - ce then - ce else max_eval,
                      if max_eval < - ce then Some move else best_move, pop E b1)
            else negamax_loop n E model (pop E b1) moves
                   (if max_eval < - ce then - ce else max_eval)
                   (if max_eval < - ce then Some move else best_move)
                   (max alpha (- ce)) beta depth)"
  using assms by (simp add: Let_def)

lemma negamax_loop_fold:
  "negamax_loop n E model board moves max_eval best_move alpha beta depth = Inr (v, mv, board')
   \<Longrightarrow> (v, mv) = foldl better_move (max_eval, best_move)
                     (examined n E model board moves alpha beta depth)"
proof (induction moves arbitrary: board max_eval best_move alpha)
  case Nil
  then show ?case by simp
next
  case (Cons move moves)
  from Cons.prems obtain ce cm b1 where
    c: "negamax n E model (push E board move) (- beta) (- alpha) (depth - 1) = Inr (ce, cm, b1)"
    by (auto split: sum.splits)
  have bm: "better_move (max_eval, best_move) (move, - ce, max alpha (- ce))
      = (if max_eval < - ce then - ce else max_eval,
         if max_eval < - ce then Some move else best_move)"
    by (simp add: better_move_def)
  show ?case
  proof (cases "beta \<le> max alpha (- ce)")
    case True
    with Cons.prems[unfolded negamax_loop_step[OF c]] have
      "(v, mv) = (if max_eval < - ce then - ce else max_eval,
                  if max_eval < - ce then Some move else best_move)"
      by (auto split: if_splits)
    moreover from True c have
      "examined n E model board (move # moves) alpha beta depth = [(move, - ce, max alpha (- ce))]"
      by (simp add: Let_def)
    ultimately show ?thesis by (simp add: bm)
  next
    case False
    with Cons.prems[unfolded negamax_loop_step[OF c]] have L:
      "negamax_loop n E model (pop E b1) moves (if max_eval < - ce then - ce else max_eval)
         (if max_eval < - ce then Some move else best_move) (max alpha (- ce)) beta depth
       = Inr (v, mv, board')"
      by (simp only: if_False)
    from False c have
      "examined n E model board (move # moves) alpha beta depth
       = (move, - ce, max alpha (- ce)) # examined n E model (pop E b1) moves (max alpha (- ce)) beta depth"
      by (simp add: Let_def)
    with Cons.IH[OF L] show ?thesis by (simp add: bm)
  qed
qed


lemma toy_reachable:
  "rtranclp negamax_negamax_loop_rel
     (Inl (Suc 0, toy, toy_model, [0, 0], Fin 1, Fin 4, 0))
     (Inl (Suc (Suc (Suc 0)), toy, toy_model, [], Fin 1, Fin 4, 2))"
proof -
  have r1: "negamax_negamax_loop_rel
      (Inr (Suc (Suc 0), toy, toy_model, [], [0, 1], NegInf, None, Fin 1, Fin 4, 2))
      (Inl (Suc (Suc (Suc 0)), toy, toy_model, [], Fin 1, Fin 4, 2))"
    using negamax_negamax_loop_rel.intros(1)[of 2 toy "[]" "Suc (Suc 0)" toy_model "Fin 1" "Fin 4"]
    by simp
  have r2: "negamax_negamax_loop_rel
      (Inl (Suc (Suc 0), toy, toy_model, [0], Fin (- 4), Fin (- 1), 1))
      (Inr (Suc (Suc 0), toy, toy_model, [], [0, 1], NegInf, None, Fin 1, Fin 4, 2))"
    using negamax_negamax_loop_rel.intros(2)[of "Suc (Suc 0)" toy toy_model "[]" 0 "Fin 4" "Fin 1" 2
        "[1]" NegInf None]
    by simp
  have r3: "negamax_negamax_loop_rel
      (Inr (Suc 0, toy, toy_model, [0], [0, 1], NegInf, None, Fin (- 4), Fin (- 1), 1))
      (Inl (Suc (Suc 0), toy, toy_model, [0], Fin (- 4), Fin (- 1), 1))"
    using negamax_negamax_loop_rel.intros(1)[of 1 toy "[0]" "Suc 0" toy_model "Fin (- 4)" "Fin (- 1)"]
    by simp
  have r4: "negamax_negamax_loop_rel
      (Inl (Suc 0, toy, toy_model, [0, 0], Fin 1, Fin 4, 0))
      (Inr (Suc 0, toy, toy_model, [0], [0, 1], NegInf, None, Fin (- 4), Fin (- 1), 1))"
    using negamax_negamax_loop_rel.intros(2)[of "Suc 0" toy toy_model "[0]" 0 "Fin (- 1)" "Fin (- 4)" 1
        "[1]" NegInf None]
    by simp
  from r4 r3 r2 r1 show ?thesis by (meson rtranclp.rtrancl_into_rtrancl rtranclp.rtrancl_refl)
qed


text \<open>
  Claim C3. When \<^verbatim>\<open>alpha <= beta\<close> holds at a call of \<^verbatim>\<open>negamax\<close>, it holds at every call that
  is reached from it through the recursive calls of \<open>negamax\<close> and \<open>negamax_loop\<close>, and so
  on every window in the trace of entries. In the loop, once the call for a move has
  returned, the iteration ends with the result so far exactly when \<^verbatim>\<open>alpha >= beta\<close> holds
  after \<^verbatim>\<open>alpha = max(alpha, eval)\<close>, and otherwise goes on with the remaining moves and the
  new \<^verbatim>\<open>alpha\<close>. The result of a loop that returns is the best of the examined moves,
  which are an initial segment of the moves; a move that has a later sibling is the last
  one examined exactly when \<^verbatim>\<open>alpha >= beta\<close> holds after it.
\<close>

theorem negamax_window_invariant:
  assumes "alpha \<le> beta"
  shows "(\<forall>c. rtranclp negamax_negamax_loop_rel c (Inl (n, E, model, board, alpha, beta, depth))
              \<longrightarrow> fst (call_window c) \<le> snd (call_window c)) \<and>
         (\<forall>(x, y) \<in> set (windows n E model board alpha beta depth). x \<le> y) \<and>
         (\<forall>ce cm b1.
            negamax n E model (push E board move) (- beta) (- alpha) (depth - 1) = Inr (ce, cm, b1) \<longrightarrow>
            negamax_loop n E model board (move # moves) max_eval best_move alpha beta depth =
              (if beta \<le> max alpha (- ce)
               then Inr (if max_eval < - ce then - ce else max_eval,
                         if max_eval < - ce then Some move else best_move, pop E b1)
               else negamax_loop n E model (pop E b1) moves
                      (if max_eval < - ce then - ce else max_eval)
                      (if max_eval < - ce then Some move else best_move)
                      (max alpha (- ce)) beta depth)) \<and>
         (\<forall>v mv board'.
            negamax_loop n E model board moves max_eval best_move alpha beta depth = Inr (v, mv, board') \<longrightarrow>
            (v, mv) = foldl better_move (max_eval, best_move)
                        (examined n E model board moves alpha beta depth) \<and>
            map fst (examined n E model board moves alpha beta depth)
              = take (length (examined n E model board moves alpha beta depth)) moves \<and>
            (\<forall>i < length (examined n E model board moves alpha beta depth).
               Suc i < length moves \<longrightarrow>
                 (beta \<le> snd (snd (examined n E model board moves alpha beta depth ! i))
                  \<longleftrightarrow> Suc i = length (examined n E model board moves alpha beta depth))))"
proof (intro conjI allI impI)
  fix c
  assume "rtranclp negamax_negamax_loop_rel c (Inl (n, E, model, board, alpha, beta, depth))"
  then show "fst (call_window c) \<le> snd (call_window c)"
    by (rule calls_ordered) (simp add: call_window_def assms)
next
  show "\<forall>(x, y) \<in> set (windows n E model board alpha beta depth). x \<le> y"
    by (rule windows_ordered[OF assms])
next
  fix ce cm b1
  assume "negamax n E model (push E board move) (- beta) (- alpha) (depth - 1) = Inr (ce, cm, b1)"
  then show "negamax_loop n E model board (move # moves) max_eval best_move alpha beta depth =
              (if beta \<le> max alpha (- ce)
               then Inr (if max_eval < - ce then - ce else max_eval,
                         if max_eval < - ce then Some move else best_move, pop E b1)
               else negamax_loop n E model (pop E b1) moves
                      (if max_eval < - ce then - ce else max_eval)
                      (if max_eval < - ce then Some move else best_move)
                      (max alpha (- ce)) beta depth)"
    by (rule negamax_loop_step)
next
  fix v mv board'
  assume "negamax_loop n E model board moves max_eval best_move alpha beta depth = Inr (v, mv, board')"
  then show "(v, mv) = foldl better_move (max_eval, best_move)
                        (examined n E model board moves alpha beta depth)"
    by (rule negamax_loop_fold)
next
  fix v mv board'
  assume L: "negamax_loop n E model board moves max_eval best_move alpha beta depth = Inr (v, mv, board')"
  from examined_prefix[OF L] show
    "map fst (examined n E model board moves alpha beta depth)
       = take (length (examined n E model board moves alpha beta depth)) moves" by blast
next
  fix v mv board' i
  assume L: "negamax_loop n E model board moves max_eval best_move alpha beta depth = Inr (v, mv, board')"
    and "i < length (examined n E model board moves alpha beta depth)"
    and "Suc i < length moves"
  with examined_prefix[OF L] show
    "(beta \<le> snd (snd (examined n E model board moves alpha beta depth ! i)))
     = (Suc i = length (examined n E model board moves alpha beta depth))" by blast
qed

theorem negamax_window_invariant_witness:
  "rtranclp negamax_negamax_loop_rel
     (Inl (Suc 0, toy, toy_model, [0, 0], Fin 1, Fin 4, 0))
     (Inl (Suc (Suc (Suc 0)), toy, toy_model, [], Fin 1, Fin 4, 2)) \<and>
   fst (call_window (Inl (Suc 0, toy, toy_model, [0, 0], Fin 1, Fin 4, 0)))
     \<le> snd (call_window (Inl (Suc 0, toy, toy_model, [0, 0], Fin 1, Fin 4, 0))) \<and>
   windows (Suc (Suc (Suc 0))) toy toy_model [] NegInf PosInf 2
     = [(NegInf, PosInf), (NegInf, PosInf), (NegInf, PosInf), (NegInf, Fin 3),
        (NegInf, Fin (- 3)), (Fin 3, PosInf)] \<and>
   negamax_loop (Suc 0) toy (\<lambda>features. - toy_model features) [0] [0, 1] NegInf None NegInf (Fin 1) 1
     = Inr (Fin 3, Some 0, [0]) \<and>
   examined (Suc 0) toy (\<lambda>features. - toy_model features) [0] [0, 1] NegInf (Fin 1) 1
     = [(0, Fin 3, Fin 3)] \<and>
   negamax_loop (Suc 0) toy (\<lambda>features. - toy_model features) [0] [1] NegInf None NegInf (Fin 1) 1
     = Inr (Fin 5, Some 1, [0])"
proof -
  have h: "Fin 1 \<le> Fin 4" by simp
  from negamax_window_invariant[OF h, of "Suc (Suc (Suc 0))" toy toy_model "[]" 2] toy_reachable
  have "fst (call_window (Inl (Suc 0, toy, toy_model, [0, 0], Fin 1, Fin 4, 0)))
     \<le> snd (call_window (Inl (Suc 0, toy, toy_model, [0, 0], Fin 1, Fin 4, 0)))"
    by blast
  moreover have "windows (Suc (Suc (Suc 0))) toy toy_model [] NegInf PosInf 2
     = [(NegInf, PosInf), (NegInf, PosInf), (NegInf, PosInf), (NegInf, Fin 3),
        (NegInf, Fin (- 3)), (Fin 3, PosInf)]"
    by (simp add: extract_features_eq Let_def)
  moreover have "negamax_loop (Suc 0) toy (\<lambda>features. - toy_model features) [0] [0, 1]
      NegInf None NegInf (Fin 1) 1 = Inr (Fin 3, Some 0, [0])"
    by (simp add: extract_features_eq Let_def)
  moreover have "examined (Suc 0) toy (\<lambda>features. - toy_model features) [0] [0, 1] NegInf (Fin 1) 1
     = [(0, Fin 3, Fin 3)]"
    by (simp add: extract_features_eq Let_def)
  moreover have "negamax_loop (Suc 0) toy (\<lambda>features. - toy_model features) [0] [1]
      NegInf None NegInf (Fin 1) 1 = Inr (Fin 5, Some 1, [0])"
    by (simp add: extract_features_eq Let_def)
  ultimately show ?thesis using toy_reachable by blast
qed

subsection \<open>Pruning does not change the result\<close>

lemma minimax_leaf:
  "d = 0 \<or> is_game_over E board \<Longrightarrow> minimax E model d board = Inr (leaf_value E model board, None)"
  by (cases d) (auto simp: extract_features_eq leaf_value_def)

lemma minimax_loop_Inr:
  assumes child: "\<And>board. \<exists>r. minimax E model d board = Inr r"
  shows "\<exists>r. minimax_loop E model d board moves best_score best_move = Inr r"
proof (induction moves arbitrary: best_score best_move)
  case Nil
  show ?case by simp
next
  case (Cons move moves)
  from child[of "push E board move"] obtain cs cm where
    "minimax E model d (push E board move) = Inr (cs, cm)" by (metis surj_pair)
  with Cons.IH show ?case by simp
qed

lemma minimax_Inr: "\<exists>r. minimax E model d board = Inr r"
proof (induction d arbitrary: board)
  case 0
  have "minimax E model 0 board = Inr (leaf_value E model board, None)"
    by (rule minimax_leaf) simp
  then show ?case by blast
next
  case (Suc d)
  show ?case
  proof (cases "is_game_over E board")
    case True
    then have "minimax E model (Suc d) board = Inr (leaf_value E model board, None)"
      by (intro minimax_leaf) simp
    then show ?thesis by blast
  next
    case False
    with minimax_loop_Inr[of E model d board "legal_moves E board" NegInf None, OF Suc.IH]
    show ?thesis by simp
  qed
qed

lemma minimax_eq: "minimax E model d board = Inr (v, mv) \<Longrightarrow> minimax_value E model d board = v"
  by (simp add: minimax_value_def)

lemma minimax_child:
  "\<exists>cm. minimax E model d board = Inr (minimax_value E model d board, cm)"
  using minimax_Inr[of E model d board] by (auto simp: minimax_value_def)

lemma minimax_loop_Cons:
  "minimax_loop E model d board (move # moves) best_score best_move =
     minimax_loop E model d board moves
       (if best_score < - minimax_value E model d (push E board move)
        then - minimax_value E model d (push E board move) else best_score)
       (if best_score < - minimax_value E model d (push E board move)
        then Some move else best_move)"
  using minimax_child[of E model d "push E board move"] by auto

lemma minimax_loop_bounds:
  "minimax_loop E model d board moves best_score best_move = Inr (v, mv) \<Longrightarrow>
   best_score \<le> v \<and>
   (\<forall>m \<in> set moves. - minimax_value E model d (push E board m) \<le> v) \<and>
   (v = best_score \<or> (\<exists>m \<in> set moves. v = - minimax_value E model d (push E board m)))"
proof (induction moves arbitrary: best_score best_move)
  case Nil
  then show ?case by simp
next
  case (Cons move moves)
  define e where "e = (\<lambda>m. - minimax_value E model d (push E board m))"
  define mx where "mx = (if best_score < e move then e move else best_score)"
  from Cons.prems have
    "minimax_loop E model d board moves mx
       (if best_score < e move then Some move else best_move) = Inr (v, mv)"
    by (simp only: minimax_loop_Cons e_def mx_def)
  from Cons.IH[OF this] have
    ih1: "mx \<le> v" and ih2: "\<forall>m \<in> set moves. e m \<le> v" and
    ih3: "v = mx \<or> (\<exists>m \<in> set moves. v = e m)"
    unfolding e_def by blast+
  have b: "best_score \<le> mx" and m: "e move \<le> mx" unfolding mx_def by auto
  have "best_score \<le> v" using b ih1 by (rule order_trans)
  moreover have "\<forall>m \<in> set (move # moves). e m \<le> v"
    using order_trans[OF m ih1] ih2 by simp
  moreover have "v = best_score \<or> (\<exists>m \<in> set (move # moves). v = e m)"
    using ih3 unfolding mx_def by (auto split: if_splits)
  ultimately show ?case unfolding e_def by blast
qed

lemma minimax_loop_top:
  "minimax_loop E model d board moves PosInf best_move = Inr (PosInf, best_move)"
proof (induction moves)
  case Nil
  show ?case by simp
next
  case (Cons move moves)
  have "\<not> PosInf < - minimax_value E model d (push E board move)" by simp
  then show ?case using Cons.IH by (simp only: minimax_loop_Cons if_False)
qed

lemma score_less_neg: "a < - b \<longleftrightarrow> b < - (a::score)"
  using score_neg_less_iff[of "- a" b] by simp

lemma score_neg_less: "- a < b \<longleftrightarrow> - b < (a::score)"
  using score_neg_less_iff[of a "- b"] by simp

lemma score_le_neg: "a \<le> - b \<longleftrightarrow> b \<le> - (a::score)"
  using score_neg_le_iff[of "- a" b] by simp

lemma score_neg_le: "- a \<le> b \<longleftrightarrow> - b \<le> (a::score)"
  using score_neg_le_iff[of a "- b"] by simp

lemma int_Suc_pred [simp]: "int (Suc d) - 1 = int d"
  by simp

lemma cut_step:
  fixes alpha beta e es mx :: "'a::linorder"
  assumes "alpha < beta" "mx \<le> alpha" "alpha < e \<longrightarrow> e \<le> es" "beta \<le> max alpha e"
  shows "mx \<le> (if mx < e then e else mx) \<and> \<not> (if mx < e then e else mx) < beta
         \<and> (if mx < e then e else mx) \<le> es"
  using assms by (auto simp: max_def split: if_splits)

lemma continue_step:
  fixes alpha beta e es mx v :: "'a::linorder"
  assumes "alpha < beta" "mx \<le> alpha" "alpha < e \<longrightarrow> e \<le> es" "e < beta \<longrightarrow> es \<le> e"
    "\<not> beta \<le> max alpha e" "(if mx < e then e else mx) \<le> v"
  shows "mx \<le> v" "v < beta \<longrightarrow> es \<le> v" "alpha < v \<Longrightarrow> \<not> max alpha e < v \<Longrightarrow> v \<le> es"
proof -
  show "mx \<le> v" using assms(6) by (auto split: if_splits)
  have ev: "e \<le> v" using assms(6) by (auto split: if_splits)
  show "v < beta \<longrightarrow> es \<le> v" using ev assms(4) by auto
  show "v \<le> es" if "alpha < v" "\<not> max alpha e < v"
    using that ev assms(3) by (auto simp: max_def split: if_splits)
qed

lemma negamax_loop_bounds:
  assumes undo: "undo_ok E"
    and child: "\<And>board a b v mv b'. a < b \<Longrightarrow>
        negamax n E model board a b (int d) = Inr (v, mv, b') \<Longrightarrow>
        (v < b \<longrightarrow> minimax_value E model d board \<le> v) \<and>
        (a < v \<longrightarrow> v \<le> minimax_value E model d board)"
  shows "alpha < beta \<Longrightarrow> max_eval \<le> alpha \<Longrightarrow>
     negamax_loop n E model board moves max_eval best_move alpha beta (int (Suc d))
       = Inr (v, mv, board') \<Longrightarrow>
     max_eval \<le> v \<and>
     (v < beta \<longrightarrow> (\<forall>m \<in> set moves. - minimax_value E model d (push E board m) \<le> v)) \<and>
     (alpha < v \<longrightarrow> (\<exists>m \<in> set moves. v \<le> - minimax_value E model d (push E board m)))"
proof (induction moves arbitrary: max_eval best_move alpha)
  case Nil
  then show ?case by auto
next
  case (Cons move moves)
  define es where "es = - minimax_value E model d (push E board move)"
  from Cons.prems(3) obtain ce cm b1 where
    c: "negamax n E model (push E board move) (- beta) (- alpha) (int d) = Inr (ce, cm, b1)"
    by (auto split: sum.splits)
  define e where "e = - ce"
  from negamax_board[OF undo c] undo have p: "pop E b1 = board" by (simp add: undo_ok_def)
  from Cons.prems(1) have "- beta < - alpha" by simp
  from child[OF this c] have
    e1: "alpha < e \<longrightarrow> e \<le> es" and e2: "e < beta \<longrightarrow> es \<le> e"
    unfolding e_def es_def by (simp_all add: score_less_neg score_neg_less)
  show ?case
  proof (cases "beta \<le> max alpha e")
    case True
    with Cons.prems(3) c have v: "v = (if max_eval < e then e else max_eval)"
      by (auto simp: Let_def e_def)
    from cut_step[OF Cons.prems(1,2) e1 True] show ?thesis
      unfolding v es_def by auto
  next
    case False
    with Cons.prems(3) c p have L:
      "negamax_loop n E model board moves (if max_eval < e then e else max_eval)
         (if max_eval < e then Some move else best_move) (max alpha e) beta (int (Suc d))
       = Inr (v, mv, board')"
      by (auto simp: Let_def e_def split: if_splits)
    from False have ab: "max alpha e < beta" by (simp only: not_le)
    have mx: "(if max_eval < e then e else max_eval) \<le> max alpha e"
      using Cons.prems(2) by (auto simp: max_def)
    from Cons.IH[OF ab mx L] have
      ih1: "(if max_eval < e then e else max_eval) \<le> v" and
      ih2: "v < beta \<longrightarrow> (\<forall>m \<in> set moves. - minimax_value E model d (push E board m) \<le> v)" and
      ih3: "max alpha e < v \<longrightarrow> (\<exists>m \<in> set moves. v \<le> - minimax_value E model d (push E board m))"
      by blast+
    note st = continue_step[OF Cons.prems(1,2) e1 e2 False ih1]
    have "max_eval \<le> v" by (rule st(1))
    moreover have "v < beta \<longrightarrow>
        (\<forall>m \<in> set (move # moves). - minimax_value E model d (push E board m) \<le> v)"
      using st(2) ih2 unfolding es_def by simp
    moreover have "alpha < v \<longrightarrow>
        (\<exists>m \<in> set (move # moves). v \<le> - minimax_value E model d (push E board m))"
    proof
      assume av: "alpha < v"
      show "\<exists>m \<in> set (move # moves). v \<le> - minimax_value E model d (push E board m)"
      proof (cases "max alpha e < v")
        case True
        with ih3 show ?thesis by auto
      next
        case False
        from st(3)[OF av False] show ?thesis unfolding es_def by simp
      qed
    qed
    ultimately show ?thesis by blast
  qed
qed

lemma negamax_bounds:
  assumes undo: "undo_ok E"
  shows "alpha < beta \<Longrightarrow> negamax n E model board alpha beta (int d) = Inr (v, mv, board') \<Longrightarrow>
         (v < beta \<longrightarrow> minimax_value E model d board \<le> v) \<and>
         (alpha < v \<longrightarrow> v \<le> minimax_value E model d board)"
proof (induction n arbitrary: board alpha beta d v mv board')
  case 0
  then show ?case by simp
next
  case (Suc n)
  show ?case
  proof (cases "d = 0 \<or> is_game_over E board")
    case True
    then have "int d = 0 \<or> is_game_over E board" by simp
    from Suc.prems(2)[unfolded negamax_leaf[OF this]]
    have "v = leaf_value E model board" by (auto simp: leaf_value_def)
    moreover from minimax_leaf[OF True] have "minimax_value E model d board = leaf_value E model board"
      by (rule minimax_eq)
    ultimately show ?thesis by simp
  next
    case False
    then obtain d' where d: "d = Suc d'" by (cases d) auto
    from False Suc.prems(2) have L:
      "negamax_loop n E model board (legal_moves E board) NegInf None alpha beta (int (Suc d'))
       = Inr (v, mv, board')" unfolding d by simp
    have B: "NegInf \<le> v \<and>
      (v < beta \<longrightarrow> (\<forall>m \<in> set (legal_moves E board). - minimax_value E model d' (push E board m) \<le> v)) \<and>
      (alpha < v \<longrightarrow> (\<exists>m \<in> set (legal_moves E board). v \<le> - minimax_value E model d' (push E board m)))"
    proof (rule negamax_loop_bounds[OF undo _ Suc.prems(1) _ L])
      show "(v < b \<longrightarrow> minimax_value E model d' board \<le> v) \<and>
            (a < v \<longrightarrow> v \<le> minimax_value E model d' board)"
        if "a < b" "negamax n E model board a b (int d') = Inr (v, mv, b')"
        for board a b v mv b'
        using Suc.IH[OF that] .
      show "NegInf \<le> alpha" by simp
    qed
    from minimax_child[of E model d board] obtain rm where
      "minimax E model d board = Inr (minimax_value E model d board, rm)" ..
    with False have
      "minimax_loop E model d' board (legal_moves E board) NegInf None
       = Inr (minimax_value E model d board, rm)" unfolding d by simp
    from minimax_loop_bounds[OF this] have
      r1: "\<forall>m \<in> set (legal_moves E board).
             - minimax_value E model d' (push E board m) \<le> minimax_value E model d board" and
      r2: "minimax_value E model d board = NegInf \<or>
           (\<exists>m \<in> set (legal_moves E board).
              minimax_value E model d board = - minimax_value E model d' (push E board m))"
      by blast+
    have "v < beta \<longrightarrow> minimax_value E model d board \<le> v"
      using B r2 by auto
    moreover have "alpha < v \<longrightarrow> v \<le> minimax_value E model d board"
      using B r1 by (meson order_trans)
    ultimately show ?thesis by blast
  qed
qed

lemma negamax_loop_root:
  assumes undo: "undo_ok E"
  shows "max_eval < PosInf \<Longrightarrow>
     negamax_loop n E model board moves max_eval best_move max_eval PosInf (int (Suc d))
       = Inr (v, mv, board') \<Longrightarrow>
     minimax_loop E model d board moves max_eval best_move = Inr (v, mv) \<and> board' = board"
proof (induction moves arbitrary: max_eval best_move)
  case Nil
  then show ?case by simp
next
  case (Cons move moves)
  define es where "es = - minimax_value E model d (push E board move)"
  from Cons.prems(2) obtain ce cm b1 where
    c: "negamax n E model (push E board move) NegInf (- max_eval) (int d) = Inr (ce, cm, b1)"
    by (auto split: sum.splits)
  define e where "e = - ce"
  from negamax_board[OF undo c] undo have p: "pop E b1 = board" by (simp add: undo_ok_def)
  from Cons.prems(1) have "NegInf < - max_eval" by (cases max_eval) simp_all
  from negamax_bounds[OF undo this c] have
    e1: "max_eval < e \<longrightarrow> e \<le> es" and e2: "e < PosInf \<longrightarrow> es \<le> e"
    unfolding e_def es_def by (simp_all add: score_less_neg score_neg_less)
  have same: "(max_eval < es) = (max_eval < e)"
    using e1 e2 Cons.prems(1) by (metis le_less_trans less_le_trans not_le)
  have eq: "max_eval < e \<Longrightarrow> es = e"
    using e1 e2 by (metis antisym score_less_PosInf_iff score_le_simps(2))
  define mx where "mx = (if max_eval < e then e else max_eval)"
  define bm where "bm = (if max_eval < e then Some move else best_move)"
  have ref: "minimax_loop E model d board (move # moves) max_eval best_move
             = minimax_loop E model d board moves mx bm"
    unfolding minimax_loop_Cons es_def[symmetric] same mx_def bm_def using eq by simp
  have mxa: "max max_eval e = mx" unfolding mx_def by (auto simp: max_def)
  show ?case
  proof (cases "PosInf \<le> max max_eval e")
    case True
    with Cons.prems(2) c p have r: "v = mx" "mv = bm" "board' = board"
      by (auto simp: Let_def e_def mx_def bm_def)
    from True mxa have "mx = PosInf" by (cases mx) simp_all
    with r ref minimax_loop_top[of E model d board moves bm] show ?thesis by simp
  next
    case False
    with Cons.prems(2) c p have L:
      "negamax_loop n E model board moves mx bm mx PosInf (int (Suc d)) = Inr (v, mv, board')"
      unfolding mxa[symmetric]
      by (auto simp: Let_def e_def mx_def bm_def max_def split: if_splits)
    from False mxa have "mx < PosInf" by (simp add: not_le)
    from Cons.IH[OF this L] ref show ?thesis by simp
  qed
qed


text \<open>
  Claim C1. With an engine whose \<^verbatim>\<open>pop\<close> undoes \<^verbatim>\<open>push\<close>, for every position and every depth
  \<open>d\<close> that is not negative, \<^verbatim>\<open>negamax\<close> with the window from \<^verbatim>\<open>-inf\<close> to \<^verbatim>\<open>+inf\<close> (and a stack of
  more than \<open>d\<close> frames) returns the score and the move of the reference search without
  pruning, and leaves the board as it was.
\<close>

theorem pruning_equivalence:
  assumes "undo_ok E" and "d < n"
  shows "\<exists>v mv. minimax E model d board = Inr (v, mv) \<and>
                negamax n E model board NegInf PosInf (int d) = Inr (v, mv, board)"
proof -
  from assms(2) obtain n' where n: "n = Suc n'" by (cases n) auto
  show ?thesis
  proof (cases "d = 0 \<or> is_game_over E board")
    case True
    then have "int d = 0 \<or> is_game_over E board" by simp
    from negamax_leaf[OF this, of n' model NegInf PosInf] minimax_leaf[OF True, of model]
    show ?thesis unfolding n by (simp add: leaf_value_def)
  next
    case False
    then obtain d' where d: "d = Suc d'" by (cases d) auto
    from assms(2) have "0 \<le> int d" "nat (int d) < n" by simp_all
    from negamax_returns[OF this, of E model board NegInf PosInf] obtain r where
      "negamax n E model board NegInf PosInf (int d) = Inr r" ..
    moreover obtain v mv b where "r = (v, mv, b)" by (cases r)
    ultimately have r: "negamax n E model board NegInf PosInf (int d) = Inr (v, mv, b)" by simp
    with False have L:
      "negamax_loop n' E model board (legal_moves E board) NegInf None NegInf PosInf (int (Suc d'))
       = Inr (v, mv, b)" unfolding n d by simp
    have "NegInf < PosInf" by simp
    from negamax_loop_root[OF assms(1) this L] have
      "minimax_loop E model d' board (legal_moves E board) NegInf None = Inr (v, mv)" "b = board"
      by simp_all
    with False r show ?thesis unfolding d by simp
  qed
qed

theorem pruning_equivalence_witness:
  "undo_ok toy \<and>
   minimax toy toy_model 2 [] = Inr (Fin 3, Some 0) \<and>
   negamax (Suc (Suc (Suc 0))) toy toy_model [] NegInf PosInf 2 = Inr (Fin 3, Some 0, []) \<and>
   examined (Suc 0) toy toy_model [1] (legal_moves toy [1]) NegInf (Fin (- 3)) 1
     = [(0, Fin (- 2), Fin (- 2))]"
proof -
  have h: "(2::nat) < Suc (Suc (Suc 0))" by simp
  from pruning_equivalence[OF toy_undo_ok h, of toy_model "[]"] toy_run
  have "minimax toy toy_model 2 [] = Inr (Fin 3, Some 0)" by simp
  moreover have "examined (Suc 0) toy toy_model [1] (legal_moves toy [1]) NegInf (Fin (- 3)) 1
     = [(0, Fin (- 2), Fin (- 2))]"
    by (simp add: extract_features_eq Let_def)
  ultimately show ?thesis using toy_undo_ok toy_run by simp
qed

end
